theory Spec2Isabelle
  imports Main "HOL-Library.AList" "HOL-Library.Sublist"
begin

section \<open>Strings and JSON values\<close>

text \<open>
  JavaScript strings are modelled as \<open>string\<close> (lists of 8-bit characters), so the model
  covers ASCII text: \<open>toLowerCase\<close> folds \<open>A\<close>..\<open>Z\<close>, \<open>trim\<close> removes ASCII white space,
  and the regular expression dot excludes line feed and carriage return.
\<close>

definition to_lower_char :: "char \<Rightarrow> char" where
  "to_lower_char c =
     (case map_of (zip ''ABCDEFGHIJKLMNOPQRSTUVWXYZ'' ''abcdefghijklmnopqrstuvwxyz'') c of
        Some l \<Rightarrow> l
      | None \<Rightarrow> c)"

definition toLowerCase :: "string \<Rightarrow> string" where
  "toLowerCase s = map to_lower_char s"

definition is_space :: "char \<Rightarrow> bool" where
  "is_space c = (c \<in> set [CHR 0x09, CHR 0x0A, CHR 0x0B, CHR 0x0C, CHR 0x0D, CHR 0x20])"

definition trim :: "string \<Rightarrow> string" where
  "trim s = rev (dropWhile is_space (rev (dropWhile is_space s)))"

definition is_quote :: "char \<Rightarrow> bool" where
  "is_quote c = (c = CHR 0x27 \<or> c = CHR 0x22)"

text \<open>\<open>s.replace(/^['"]|['"]$/g, "")\<close>: one leading and one trailing quote character go.\<close>

definition strip_quotes :: "string \<Rightarrow> string" where
  "strip_quotes s =
     (let s1 = (case s of [] \<Rightarrow> [] | c # cs \<Rightarrow> if is_quote c then cs else s)
      in if s1 \<noteq> [] \<and> is_quote (last s1) then butlast s1 else s1)"

text \<open>\<open>s.split(c)\<close> for a one-character separator: the empty string gives one empty piece.\<close>

fun split_on :: "char \<Rightarrow> string \<Rightarrow> string list" where
  "split_on c [] = [[]]"
| "split_on c (x # xs) =
     (if x = c then [] # split_on c xs
      else (case split_on c xs of [] \<Rightarrow> [[x]] | w # ws \<Rightarrow> (x # w) # ws))"

fun join_with :: "string \<Rightarrow> string list \<Rightarrow> string" where
  "join_with sep [] = []"
| "join_with sep [x] = x"
| "join_with sep (x # y # ys) = x @ sep @ join_with sep (y # ys)"

definition digit_char :: "nat \<Rightarrow> char" where
  "digit_char d = char_of (48 + d)"

fun show_nat :: "nat \<Rightarrow> string" where
  "show_nat n = (if n < 10 then [digit_char n] else show_nat (n div 10) @ [digit_char (n mod 10)])"

declare show_nat.simps [simp del]

definition padStart :: "nat \<Rightarrow> char \<Rightarrow> string \<Rightarrow> string" where
  "padStart n c s = replicate (n - length s) c @ s"

datatype json =
    JNull
  | JBool bool
  | JNum int
  | JStr string
  | JArr "json list"
  | JObj "(string \<times> json) list"

text \<open>A \<open>Record<string, unknown>\<close>: the fields of an object, in insertion order.\<close>

type_synonym jrecord = "(string \<times> json) list"

text \<open>Property access \<open>v.k\<close> on an unknown value; \<open>None\<close> is \<open>undefined\<close>.\<close>

fun jfield :: "json \<Rightarrow> string \<Rightarrow> json option" where
  "jfield (JObj kvs) k = map_of kvs k"
| "jfield _ k = None"

text \<open>\<open>typeof v.k === "string"\<close>, giving the string.\<close>

definition str_field :: "jrecord \<Rightarrow> string \<Rightarrow> string option" where
  "str_field kvs k = (case map_of kvs k of Some (JStr s) \<Rightarrow> Some s | _ \<Rightarrow> None)"

section \<open>The host: Node's POSIX path functions, the tokenizer, the serialiser\<close>

text \<open>
  What the code takes from its runtime: \<open>os.homedir()\<close>, \<open>process.cwd()\<close>, the
  \<open>gpt-tokenizer\<close> encoder (\<open>None\<close> when it throws) and \<open>JSON.stringify\<close> on a tool
  input (\<open>None\<close> when it throws).
\<close>

record host =
  homedir :: string
  cwd :: string
  encode_length :: "string \<Rightarrow> nat option"
  stringify :: "jrecord \<Rightarrow> string option"

text \<open>Node's \<open>normalizeString\<close>: drops empty and \<open>.\<close> segments and resolves \<open>..\<close>.\<close>

definition norm_segment :: "bool \<Rightarrow> string \<Rightarrow> string list \<Rightarrow> string list" where
  "norm_segment allowAboveRoot seg acc =
     (if seg = [] \<or> seg = ''.'' then acc
      else if seg = ''..'' then
        (case acc of
           [] \<Rightarrow> if allowAboveRoot then [''..''] else []
         | t # ts \<Rightarrow> if t \<noteq> ''..'' then ts else if allowAboveRoot then ''..'' # acc else acc)
      else seg # acc)"

definition normalizeString :: "string \<Rightarrow> bool \<Rightarrow> string" where
  "normalizeString p allowAboveRoot =
     join_with ''/'' (rev (fold (norm_segment allowAboveRoot) (split_on CHR ''/'' p) []))"

definition path_isAbsolute :: "string \<Rightarrow> bool" where
  "path_isAbsolute p = (case p of [] \<Rightarrow> False | c # _ \<Rightarrow> c = CHR ''/'')"

definition path_normalize :: "string \<Rightarrow> string" where
  "path_normalize p =
     (if p = [] then ''.''
      else let isAbs = path_isAbsolute p;
               trailingSeparator = (last p = CHR ''/'');
               q = normalizeString p (\<not> isAbs)
           in if q = [] then (if isAbs then ''/'' else if trailingSeparator then ''./'' else ''.'')
              else (if isAbs then ''/'' else []) @ q @ (if trailingSeparator then ''/'' else []))"

definition path_join :: "string list \<Rightarrow> string" where
  "path_join args =
     (case filter (\<lambda>a. a \<noteq> []) args of
        [] \<Rightarrow> ''.''
      | nonempty \<Rightarrow> path_normalize (join_with ''/'' nonempty))"

text \<open>
  \<open>path.resolve\<close> walks its arguments from the right, then the working directory, until
  the path built so far is absolute.
\<close>

fun resolve_walk :: "string list \<Rightarrow> string \<Rightarrow> string \<times> bool" where
  "resolve_walk [] acc = (acc, False)"
| "resolve_walk (p # ps) acc =
     (if p = [] then resolve_walk ps acc
      else if path_isAbsolute p then (p @ ''/'' @ acc, True)
      else resolve_walk ps (p @ ''/'' @ acc))"

definition path_resolve :: "host \<Rightarrow> string list \<Rightarrow> string" where
  "path_resolve h args =
     (case resolve_walk (rev args @ [cwd h]) [] of
        (resolvedPath, resolvedAbsolute) \<Rightarrow>
          (let q = normalizeString resolvedPath (\<not> resolvedAbsolute)
           in if resolvedAbsolute then ''/'' @ q else if q \<noteq> [] then q else ''.''))"

text \<open>\<open>path.basename\<close>: the last component, trailing separators ignored.\<close>

definition path_basename :: "string \<Rightarrow> string" where
  "path_basename p =
     rev (takeWhile (\<lambda>c. c \<noteq> CHR ''/'') (dropWhile (\<lambda>c. c = CHR ''/'') (rev p)))"

text \<open>
  \<open>path.extname\<close>: from the last dot of the last component to its end; empty when there
  is no dot, when the dot is the component's first character, or when the component is
  \<open>..\<close>.
\<close>

definition path_extname :: "string \<Rightarrow> string" where
  "path_extname p =
     (let base = path_basename p;
          after = rev (takeWhile (\<lambda>c. c \<noteq> CHR ''.'') (rev base))
      in if CHR ''.'' \<notin> set base then []
         else if length base = Suc (length after) then []
         else if base = ''..'' then []
         else CHR ''.'' # after)"

section \<open>Path identity (path-utils.ts)\<close>

definition normalizeFilePath :: "host \<Rightarrow> string option \<Rightarrow> string option \<Rightarrow> string option" where
  "normalizeFilePath h filePath worktreeRoot =
     (case filePath of
        None \<Rightarrow> None
      | Some fp \<Rightarrow>
          if fp = [] then None
          else let trimmed = strip_quotes (trim fp);
                   expanded = (case trimmed of
                                 [] \<Rightarrow> trimmed
                               | c # rest \<Rightarrow> if c = CHR ''~'' then path_join [homedir h, rest]
                                            else trimmed)
               in if path_isAbsolute expanded then Some (path_normalize expanded)
                  else (case worktreeRoot of
                          None \<Rightarrow> Some (path_normalize (path_resolve h [expanded]))
                        | Some r \<Rightarrow>
                            if r \<noteq> [] then Some (path_normalize (path_resolve h [r, expanded]))
                            else Some (path_normalize (path_resolve h [expanded]))))"

section \<open>The protection predicate (patterns.ts)\<close>

definition matchesExtension :: "string \<Rightarrow> string list \<Rightarrow> bool" where
  "matchesExtension filePath extensions =
     (let ext = toLowerCase (path_extname filePath)
      in if ext = [] then False
         else ext \<in> set extensions \<or> tl ext \<in> set extensions)"

definition is_line_terminator :: "char \<Rightarrow> bool" where
  "is_line_terminator c = (c = CHR 0x0A \<or> c = CHR 0x0D)"

text \<open>
  \<open>globToRegex(pattern).test(s)\<close>: the pattern is anchored at both ends, \<open>*\<close> becomes
  \<open>.*\<close>, \<open>?\<close> becomes \<open>.\<close>, and every other character stands for itself (escaped where the
  regular expression syntax needs it).
\<close>

fun glob_test :: "string \<Rightarrow> string \<Rightarrow> bool" where
  "glob_test [] s = (s = [])"
| "glob_test (c # p) [] = (c = CHR ''*'' \<and> glob_test p [])"
| "glob_test (c # p) (x # xs) =
     (if c = CHR ''*'' then glob_test p (x # xs) \<or> (\<not> is_line_terminator x \<and> glob_test (c # p) xs)
      else if c = CHR ''?'' then \<not> is_line_terminator x \<and> glob_test p xs
      else c = x \<and> glob_test p xs)"

definition matchesPattern :: "string \<Rightarrow> string list \<Rightarrow> bool" where
  "matchesPattern filePath patterns =
     (let base = path_basename filePath
      in list_ex (\<lambda>pattern. glob_test pattern filePath \<or> glob_test pattern base) patterns)"

definition isFileProtected :: "string \<Rightarrow> string list \<Rightarrow> string list \<Rightarrow> bool" where
  "isFileProtected filePath extensions patterns =
     (if filePath = [] then False
      else matchesExtension filePath extensions \<or> matchesPattern filePath patterns)"

section \<open>Token deltas and the session stats store (stats.ts)\<close>

record StepTokenDelta =
  tokensBefore :: int
  tokensAfter :: int
  readTokensBefore :: int
  readTokensAfter :: int
  editTokensBefore :: int
  editTokensAfter :: int
  invalidatedTokensBefore :: int
  filesConsolidated :: int
  filesInvalidated :: int

record SessionTokenStats =
  sessionID :: string
  total :: StepTokenDelta
  lastStep :: StepTokenDelta
  lastUpdatedAt :: int
  lastReportedAt :: "int option"
  lastReportedNetDelta :: "int option"

definition emptyDelta :: StepTokenDelta where
  "emptyDelta =
     \<lparr>tokensBefore = 0, tokensAfter = 0, readTokensBefore = 0, readTokensAfter = 0,
      editTokensBefore = 0, editTokensAfter = 0, invalidatedTokensBefore = 0,
      filesConsolidated = 0, filesInvalidated = 0\<rparr>"

definition netDelta :: "StepTokenDelta \<Rightarrow> int" where
  "netDelta delta = tokensBefore delta - tokensAfter delta"

text \<open>The tracker's \<open>bySession\<close> map; \<open>now\<close> is the value \<open>Date.now()\<close> returns.\<close>

type_synonym stats_store = "string \<rightharpoonup> SessionTokenStats"

definition tracker_record ::
  "stats_store \<Rightarrow> int \<Rightarrow> string \<Rightarrow> StepTokenDelta \<Rightarrow> SessionTokenStats \<times> stats_store" where
  "tracker_record bySession now sid delta =
     (let prev = bySession sid;
          next = \<lparr>sessionID = sid, total = delta, lastStep = delta, lastUpdatedAt = now,
                  lastReportedAt = (case prev of None \<Rightarrow> None | Some s \<Rightarrow> lastReportedAt s),
                  lastReportedNetDelta =
                    (case prev of None \<Rightarrow> None | Some s \<Rightarrow> lastReportedNetDelta s)\<rparr>
      in (next, bySession(sid \<mapsto> next)))"

definition tracker_get :: "stats_store \<Rightarrow> string \<Rightarrow> SessionTokenStats option" where
  "tracker_get bySession sid = bySession sid"

definition shouldReportOnIdle :: "stats_store \<Rightarrow> string \<Rightarrow> bool" where
  "shouldReportOnIdle bySession sid =
     (case bySession sid of
        None \<Rightarrow> False
      | Some stats \<Rightarrow>
          (case lastReportedAt stats of
             None \<Rightarrow> True
           | Some t \<Rightarrow> if t = 0 then True else lastUpdatedAt stats > t))"

definition markReported :: "stats_store \<Rightarrow> int \<Rightarrow> string \<Rightarrow> stats_store" where
  "markReported bySession now sid =
     (case bySession sid of
        None \<Rightarrow> bySession
      | Some stats \<Rightarrow>
          bySession(sid \<mapsto> stats\<lparr>lastReportedAt := Some now,
                                   lastReportedNetDelta := Some (netDelta (total stats))\<rparr>))"

text \<open>A run of passes for one session: each pass records its delta at its time.\<close>

definition record_passes :: "stats_store \<Rightarrow> string \<Rightarrow> (int \<times> StepTokenDelta) list \<Rightarrow> stats_store" where
  "record_passes bySession sid passes =
     fold (\<lambda>(now, delta) st. snd (tracker_record st now sid delta)) passes bySession"

section \<open>Messages and tool parts (types.ts)\<close>

text \<open>The field \<open>output\<close> of a completed state is the selector \<open>output_str\<close>.\<close>

datatype ToolState =
    Pending (input: jrecord) (raw: string)
  | Running (input: jrecord) (running_title: "string option")
      (running_metadata: "jrecord option") (time_start: int)
  | Completed (input: jrecord) (output_str: string) (title: string) (metadata: jrecord)
      (time_start: int) (time_end: int) (compacted: "int option")
  | Error (input: jrecord) (error: string) (error_metadata: "jrecord option")
      (time_start: int) (time_end: int)

datatype Part =
    ToolPart (part_id: "string option") (callID: "string option") (tool: string)
      (state: ToolState) (part_metadata: "jrecord option")
  | OtherPart (part_type: string) (part_fields: jrecord)

text \<open>
  A message: \<open>info.role\<close>, \<open>info.path.root\<close> and the parts. The other fields of \<open>info\<close>
  are read by neither engine.
\<close>

record ChatMessage =
  role :: string
  path_root :: "string option"
  parts :: "Part list"

record ProtectedFiles =
  extensions :: "string list"
  patterns :: "string list"

record WhitelistConfig =
  allowedModels :: "string list"
  enforced :: bool
  protectedFiles :: "ProtectedFiles option"

definition protectedExtensions :: "WhitelistConfig \<Rightarrow> string list" where
  "protectedExtensions config = (case protectedFiles config of None \<Rightarrow> [] | Some pf \<Rightarrow> extensions pf)"

definition protectedPatterns :: "WhitelistConfig \<Rightarrow> string list" where
  "protectedPatterns config = (case protectedFiles config of None \<Rightarrow> [] | Some pf \<Rightarrow> patterns pf)"

definition inferWorktreeRoot :: "ChatMessage list \<Rightarrow> string option" where
  "inferWorktreeRoot messages =
     (case List.find (\<lambda>m. case path_root m of None \<Rightarrow> False | Some r \<Rightarrow> r \<noteq> []) (rev messages) of
        None \<Rightarrow> None
      | Some m \<Rightarrow> path_root m)"

text \<open>
  The second test of the source (\<open>Array.isArray(input.edits)\<close> with a string \<open>filePath\<close>)
  can only succeed where the first one already has, so it adds no branch.
\<close>

definition extractPrimaryFilePath :: "host \<Rightarrow> Part \<Rightarrow> string option \<Rightarrow> string option" where
  "extractPrimaryFilePath h part worktreeRoot =
     (case part of
        OtherPart _ _ \<Rightarrow> None
      | ToolPart _ _ _ st _ \<Rightarrow>
          (case str_field (input st) ''filePath'' of
             Some fp \<Rightarrow> normalizeFilePath h (Some fp) worktreeRoot
           | None \<Rightarrow>
               (case str_field (input st) ''path'' of
                  Some fp \<Rightarrow> normalizeFilePath h (Some fp) worktreeRoot
                | None \<Rightarrow> None)))"

section \<open>Helpers shared by both engines\<close>

definition is_tool :: "Part \<Rightarrow> bool" where
  "is_tool part = (case part of ToolPart _ _ _ _ _ \<Rightarrow> True | OtherPart _ _ \<Rightarrow> False)"

definition isCompletedToolPart :: "Part \<Rightarrow> bool" where
  "isCompletedToolPart part =
     (case part of
        ToolPart _ _ _ (Completed _ _ _ _ _ _ _) _ \<Rightarrow> True
      | _ \<Rightarrow> False)"

definition isFileTool :: "string \<Rightarrow> bool" where
  "isFileTool t = (t = ''read'' \<or> t = ''edit'' \<or> t = ''write'' \<or> t = ''multiedit'')"

fun normalizeNewlines :: "string \<Rightarrow> string" where
  "normalizeNewlines (a # b # cs) =
     (if a = CHR 0x0D \<and> b = CHR 0x0A then CHR 0x0A # normalizeNewlines cs
      else a # normalizeNewlines (b # cs))"
| "normalizeNewlines cs = cs"

definition renderReadLikeOutput :: "string \<Rightarrow> string" where
  "renderReadLikeOutput rawContent =
     (let normalized = normalizeNewlines rawContent;
          lines = split_on CHR 0x0A normalized
      in ''<file>'' @ [CHR 0x0A]
         @ concat (map (\<lambda>(i, l). padStart 5 CHR ''0'' (show_nat (i + 1)) @ ''| '' @ l @ [CHR 0x0A])
                       (enumerate 0 lines))
         @ [CHR 0x0A] @ ''(End of file - total '' @ show_nat (length lines) @ '' lines)''
         @ [CHR 0x0A] @ ''</file>'')"

text \<open>\<open>fd && typeof fd.after === "string"\<close>, giving the string.\<close>

definition after_of_filediff :: "json option \<Rightarrow> string option" where
  "after_of_filediff fd =
     (case fd of
        None \<Rightarrow> None
      | Some v \<Rightarrow> (case jfield v ''after'' of Some (JStr s) \<Rightarrow> Some s | _ \<Rightarrow> None))"

definition extractAfterFromEditMetadata :: "jrecord \<Rightarrow> string option" where
  "extractAfterFromEditMetadata stateMetadata =
     (case after_of_filediff (map_of stateMetadata ''filediff'') of
        Some s \<Rightarrow> Some s
      | None \<Rightarrow>
          (case map_of stateMetadata ''results'' of
             Some (JArr results) \<Rightarrow>
               if results \<noteq> [] then after_of_filediff (jfield (last results) ''filediff'')
               else None
           | _ \<Rightarrow> None))"

definition estimateTokens :: "host \<Rightarrow> string \<Rightarrow> int" where
  "estimateTokens h txt =
     (if txt = [] then 0
      else case encode_length h txt of
             Some n \<Rightarrow> int n
           | None \<Rightarrow> int ((length txt + 3) div 4))"

definition safeStringify :: "host \<Rightarrow> jrecord \<Rightarrow> string" where
  "safeStringify h obj = (case stringify h obj of Some s \<Rightarrow> s | None \<Rightarrow> [])"

definition toolPartTokens :: "host \<Rightarrow> Part \<Rightarrow> int" where
  "toolPartTokens h part =
     (if \<not> isCompletedToolPart part then 0
      else estimateTokens h (safeStringify h (input (state part)))
           + estimateTokens h (output_str (state part)))"

definition categorizeBeforeTokens :: "StepTokenDelta \<Rightarrow> Part \<Rightarrow> int \<Rightarrow> StepTokenDelta" where
  "categorizeBeforeTokens delta part tokens =
     (let d = delta\<lparr>tokensBefore := tokensBefore delta + tokens\<rparr>
      in if tool part = ''read'' then d\<lparr>readTokensBefore := readTokensBefore d + tokens\<rparr>
         else if tool part = ''edit'' \<or> tool part = ''multiedit'' \<or> tool part = ''write''
         then d\<lparr>editTokensBefore := editTokensBefore d + tokens\<rparr>
         else d)"

definition categorizeAfterTokens :: "StepTokenDelta \<Rightarrow> Part \<Rightarrow> int \<Rightarrow> StepTokenDelta" where
  "categorizeAfterTokens delta part tokens =
     (let d = delta\<lparr>tokensAfter := tokensAfter delta + tokens\<rparr>
      in if tool part = ''read'' then d\<lparr>readTokensAfter := readTokensAfter d + tokens\<rparr>
         else if tool part = ''edit'' \<or> tool part = ''multiedit'' \<or> tool part = ''write''
         then d\<lparr>editTokensAfter := editTokensAfter d + tokens\<rparr>
         else d)"

text \<open>A JavaScript \<open>Set\<close> of strings that is iterated: the elements in insertion order.\<close>

definition set_add :: "string \<Rightarrow> string list \<Rightarrow> string list" where
  "set_add x xs = (if x \<in> set xs then xs else xs @ [x])"

text \<open>
  The parts of the window in the order the nested loops visit them, each with its
  position (message index, part index). A position stands for the part object: the
  model takes every part object to occur once in the window.
\<close>

definition window_parts :: "ChatMessage list \<Rightarrow> ((nat \<times> nat) \<times> Part) list" where
  "window_parts messages =
     concat (map (\<lambda>(i, m). map (\<lambda>(j, p). ((i, j), p)) (enumerate 0 (parts m)))
                 (enumerate 0 messages))"

definition part_at :: "ChatMessage list \<Rightarrow> nat \<times> nat \<Rightarrow> Part" where
  "part_at messages pos = parts (messages ! fst pos) ! snd pos"

definition set_part :: "ChatMessage list \<Rightarrow> nat \<times> nat \<Rightarrow> Part \<Rightarrow> ChatMessage list" where
  "set_part messages pos p =
     messages[fst pos := (messages ! fst pos)\<lparr>parts := (parts (messages ! fst pos))[snd pos := p]\<rparr>]"

section \<open>The consolidation engine (cleanup.ts)\<close>

datatype ContentKind = ReadOutput | RawText

record LatestContent =
  content :: string
  contentKind :: ContentKind

text \<open>
  What pass 1 collects. \<open>lastReadByFile\<close> holds a reference to a part of the window: its
  position.
\<close>

record Pass1 =
  latestByFile :: "string \<rightharpoonup> LatestContent"
  lastReadByFile :: "string \<rightharpoonup> nat \<times> nat"
  filesWithHistory :: "string list"
  filesWithRead :: "string list"

definition pass1_init :: Pass1 where
  "pass1_init =
     \<lparr>latestByFile = Map.empty, lastReadByFile = Map.empty, filesWithHistory = [],
      filesWithRead = []\<rparr>"

definition pass1_step ::
  "host \<Rightarrow> string option \<Rightarrow> string list \<Rightarrow> string list \<Rightarrow> string set
     \<Rightarrow> (nat \<times> nat) \<times> Part \<Rightarrow> Pass1 \<Rightarrow> Pass1" where
  "pass1_step h worktreeRoot exts pats invalidatedFiles entry s =
     (case entry of (pos, rawPart) \<Rightarrow>
        if \<not> is_tool rawPart then s
        else if \<not> isCompletedToolPart rawPart then s
        else if \<not> isFileTool (tool rawPart) then s
        else case extractPrimaryFilePath h rawPart worktreeRoot of
          None \<Rightarrow> s
        | Some filePath \<Rightarrow>
            if filePath = [] then s
            else if isFileProtected filePath exts pats then s
            else
              let s1 = s\<lparr>filesWithHistory := set_add filePath (filesWithHistory s)\<rparr>;
                  s2 = (if tool rawPart = ''read''
                        then s1\<lparr>filesWithRead := set_add filePath (filesWithRead s1)\<rparr>
                        else s1)
              in if filePath \<in> invalidatedFiles then s2
                 else if tool rawPart = ''read'' then
                   (if output_str (state rawPart) \<noteq> [] then
                      s2\<lparr>latestByFile := (latestByFile s2)(filePath \<mapsto>
                            \<lparr>content = output_str (state rawPart), contentKind = ReadOutput\<rparr>),
                         lastReadByFile := (lastReadByFile s2)(filePath \<mapsto> pos)\<rparr>
                    else s2)
                 else if tool rawPart = ''edit'' \<or> tool rawPart = ''multiedit'' then
                   (case extractAfterFromEditMetadata (metadata (state rawPart)) of
                      Some after \<Rightarrow>
                        s2\<lparr>latestByFile := (latestByFile s2)(filePath \<mapsto>
                              \<lparr>content = after, contentKind = RawText\<rparr>)\<rparr>
                    | None \<Rightarrow> s2)
                 else if tool rawPart = ''write'' then
                   (case str_field (input (state rawPart)) ''content'' of
                      Some c \<Rightarrow>
                        s2\<lparr>latestByFile := (latestByFile s2)(filePath \<mapsto>
                              \<lparr>content = c, contentKind = RawText\<rparr>)\<rparr>
                    | None \<Rightarrow> s2)
                 else s2)"

definition cleanup_pass1 ::
  "host \<Rightarrow> ChatMessage list \<Rightarrow> WhitelistConfig \<Rightarrow> string set \<Rightarrow> Pass1" where
  "cleanup_pass1 h messages config invalidatedFiles =
     fold (pass1_step h (inferWorktreeRoot messages) (protectedExtensions config)
             (protectedPatterns config) invalidatedFiles)
          (window_parts messages) pass1_init"

definition removeCompactedMarker :: "Part \<Rightarrow> Part" where
  "removeCompactedMarker part =
     (case part of
        ToolPart pid cid t (Completed i out ti md ts te c) pm \<Rightarrow>
          ToolPart pid cid t (Completed i out ti md ts te None) pm
      | _ \<Rightarrow> part)"

text \<open>
  Pass 2 rewrites the kept read in place: its output, the \<open>filePath\<close> of its input (the
  other fields of the input stay, in their order) and the compacted marker. The kept
  read is always a completed part.
\<close>

definition rewrite_keeper :: "Part \<Rightarrow> string \<Rightarrow> string \<Rightarrow> Part" where
  "rewrite_keeper part normalizedOutput filePath =
     removeCompactedMarker
       (case part of
          ToolPart pid cid t (Completed i out ti md ts te c) pm \<Rightarrow>
            ToolPart pid cid t
              (Completed (AList.update ''filePath'' (JStr filePath) i) normalizedOutput ti md ts te c) pm
        | _ \<Rightarrow> part)"

record Pass2 =
  window :: "ChatMessage list"
  delta2 :: StepTokenDelta
  keepCallIDs :: "string set"
  filesToConsolidate :: "string set"

text \<open>The output the kept read gets: the latest known content, shaped like a read output.\<close>

definition normalizedOutput :: "Pass1 \<Rightarrow> string \<Rightarrow> Part \<Rightarrow> string" where
  "normalizedOutput s1 filePath existingRead =
     (case latestByFile s1 filePath of
        Some latest \<Rightarrow>
          if contentKind latest = ReadOutput then content latest
          else renderReadLikeOutput (content latest)
      | None \<Rightarrow> output_str (state existingRead))"

definition pass2_step :: "string set \<Rightarrow> Pass1 \<Rightarrow> string \<Rightarrow> Pass2 \<Rightarrow> Pass2" where
  "pass2_step invalidatedFiles s1 filePath st =
     (if filePath \<in> invalidatedFiles
      then st\<lparr>delta2 := (delta2 st)\<lparr>filesInvalidated := filesInvalidated (delta2 st) + 1\<rparr>\<rparr>
      else case lastReadByFile s1 filePath of
        None \<Rightarrow> st
      | Some pos \<Rightarrow>
          let existingRead = part_at (window st) pos
          in st\<lparr>window := set_part (window st) pos
                             (rewrite_keeper existingRead
                                (normalizedOutput s1 filePath existingRead) filePath),
                keepCallIDs :=
                  insert (case callID existingRead of Some c \<Rightarrow> c | None \<Rightarrow> []) (keepCallIDs st),
                filesToConsolidate := insert filePath (filesToConsolidate st),
                delta2 := (delta2 st)\<lparr>filesConsolidated := filesConsolidated (delta2 st) + 1\<rparr>\<rparr>)"

definition cleanup_pass2 :: "ChatMessage list \<Rightarrow> string set \<Rightarrow> Pass1 \<Rightarrow> Pass2" where
  "cleanup_pass2 messages invalidatedFiles s1 =
     fold (pass2_step invalidatedFiles s1) (filesWithRead s1)
          \<lparr>window = messages, delta2 = emptyDelta, keepCallIDs = {}, filesToConsolidate = {}\<rparr>"

text \<open>The invalidated files that had no read are counted too.\<close>

definition count_unread_invalidated :: "string set \<Rightarrow> Pass1 \<Rightarrow> StepTokenDelta \<Rightarrow> StepTokenDelta" where
  "count_unread_invalidated invalidatedFiles s1 delta =
     fold (\<lambda>filePath d.
             if filePath \<notin> set (filesWithRead s1) \<and> filePath \<in> invalidatedFiles
             then d\<lparr>filesInvalidated := filesInvalidated d + 1\<rparr> else d)
          (filesWithHistory s1) delta"

text \<open>Pass 3 on one part: the part is pushed to \<open>nextParts\<close> or dropped.\<close>

definition pass3_part ::
  "host \<Rightarrow> string option \<Rightarrow> string list \<Rightarrow> string list \<Rightarrow> string set \<Rightarrow> Pass1 \<Rightarrow> Pass2
     \<Rightarrow> Part \<Rightarrow> Part list \<times> StepTokenDelta \<Rightarrow> Part list \<times> StepTokenDelta" where
  "pass3_part h worktreeRoot exts pats invalidatedFiles s1 s2 rawPart acc =
     (case acc of (nextParts, delta) \<Rightarrow>
        if \<not> is_tool rawPart then (nextParts @ [rawPart], delta)
        else if \<not> isCompletedToolPart rawPart \<or> \<not> isFileTool (tool rawPart)
        then (nextParts @ [rawPart], delta)
        else case extractPrimaryFilePath h rawPart worktreeRoot of
          None \<Rightarrow> (nextParts @ [rawPart], delta)
        | Some filePath \<Rightarrow>
            if filePath = [] then (nextParts @ [rawPart], delta)
            else if filePath \<notin> set (filesWithHistory s1) then (nextParts @ [rawPart], delta)
            else if isFileProtected filePath exts pats then (nextParts @ [rawPart], delta)
            else if filePath \<in> invalidatedFiles then
              (let tokens = toolPartTokens h rawPart;
                   d = categorizeBeforeTokens delta rawPart tokens
               in (nextParts, d\<lparr>invalidatedTokensBefore := invalidatedTokensBefore d + tokens\<rparr>))
            else if filePath \<notin> filesToConsolidate s2 then (nextParts @ [rawPart], delta)
            else
              (let tokens = toolPartTokens h rawPart;
                   d = categorizeBeforeTokens delta rawPart tokens
               in if tool rawPart = ''read''
                     \<and> (case callID rawPart of
                          None \<Rightarrow> False
                        | Some c \<Rightarrow> c \<noteq> [] \<and> c \<in> keepCallIDs s2)
                  then (nextParts @ [rawPart],
                        categorizeAfterTokens d rawPart (toolPartTokens h rawPart))
                  else (nextParts, d)))"

definition pass3_message ::
  "host \<Rightarrow> string option \<Rightarrow> string list \<Rightarrow> string list \<Rightarrow> string set \<Rightarrow> Pass1 \<Rightarrow> Pass2
     \<Rightarrow> ChatMessage \<Rightarrow> ChatMessage list \<times> StepTokenDelta \<Rightarrow> ChatMessage list \<times> StepTokenDelta" where
  "pass3_message h worktreeRoot exts pats invalidatedFiles s1 s2 message acc =
     (case acc of (seen, delta) \<Rightarrow>
        (case fold (pass3_part h worktreeRoot exts pats invalidatedFiles s1 s2) (parts message)
                ([], delta) of
           (nextParts, delta') \<Rightarrow> (seen @ [message\<lparr>parts := nextParts\<rparr>], delta')))"

definition cleanupMessagesForContextJar ::
  "host \<Rightarrow> ChatMessage list \<Rightarrow> WhitelistConfig \<Rightarrow> string set
     \<Rightarrow> ChatMessage list \<times> StepTokenDelta" where
  "cleanupMessagesForContextJar h messages config invalidatedFiles =
     (let s1 = cleanup_pass1 h messages config invalidatedFiles
      in if filesWithHistory s1 = [] then (messages, emptyDelta)
         else
           let s2 = cleanup_pass2 messages invalidatedFiles s1;
               delta = count_unread_invalidated invalidatedFiles s1 (delta2 s2)
           in fold (pass3_message h (inferWorktreeRoot messages) (protectedExtensions config)
                      (protectedPatterns config) invalidatedFiles s1 s2)
                   (window s2) ([], delta))"

section \<open>The finalization engine (finalize.ts)\<close>

record FinalContent =
  final_content :: string
  isAlreadyReadFormatted :: bool

record Gathered =
  final_latestByFile :: "string \<rightharpoonup> FinalContent"
  editedFiles :: "string list"
  allTouchedFiles :: "string list"

definition gather_init :: Gathered where
  "gather_init = \<lparr>final_latestByFile = Map.empty, editedFiles = [], allTouchedFiles = []\<rparr>"

definition gather_step ::
  "host \<Rightarrow> string option \<Rightarrow> string list \<Rightarrow> string list \<Rightarrow> string set
     \<Rightarrow> Part \<Rightarrow> Gathered \<Rightarrow> Gathered" where
  "gather_step h worktreeRoot exts pats invalidatedFiles rawPart g =
     (if \<not> is_tool rawPart then g
      else if \<not> isCompletedToolPart rawPart then g
      else case extractPrimaryFilePath h rawPart worktreeRoot of
        None \<Rightarrow> g
      | Some filePath \<Rightarrow>
          if filePath = [] then g
          else if isFileProtected filePath exts pats then g
          else
            let g1 = g\<lparr>allTouchedFiles := set_add filePath (allTouchedFiles g)\<rparr>
            in if filePath \<in> invalidatedFiles then g1
               else if tool rawPart = ''edit'' \<or> tool rawPart = ''multiedit'' then
                 (case extractAfterFromEditMetadata (metadata (state rawPart)) of
                    Some after \<Rightarrow>
                      g1\<lparr>editedFiles := set_add filePath (editedFiles g1),
                         final_latestByFile := (final_latestByFile g1)(filePath \<mapsto>
                           \<lparr>final_content = after, isAlreadyReadFormatted = False\<rparr>)\<rparr>
                  | None \<Rightarrow> g1)
               else if tool rawPart = ''write'' then
                 (case str_field (input (state rawPart)) ''content'' of
                    Some c \<Rightarrow>
                      g1\<lparr>editedFiles := set_add filePath (editedFiles g1),
                         final_latestByFile := (final_latestByFile g1)(filePath \<mapsto>
                           \<lparr>final_content = c, isAlreadyReadFormatted = False\<rparr>)\<rparr>
                  | None \<Rightarrow> g1)
               else if tool rawPart = ''read'' then
                 (if output_str (state rawPart) \<noteq> [] \<and> final_latestByFile g1 filePath = None
                  then g1\<lparr>final_latestByFile := (final_latestByFile g1)(filePath \<mapsto>
                            \<lparr>final_content = output_str (state rawPart),
                             isAlreadyReadFormatted = True\<rparr>)\<rparr>
                  else g1)
               else g1)"

definition finalize_gather ::
  "host \<Rightarrow> ChatMessage list \<Rightarrow> WhitelistConfig \<Rightarrow> string set \<Rightarrow> Gathered" where
  "finalize_gather h messages config invalidatedFiles =
     fold (gather_step h (inferWorktreeRoot messages) (protectedExtensions config)
             (protectedPatterns config) invalidatedFiles)
          (concat (map parts messages)) gather_init"

definition categorizeBefore :: "StepTokenDelta \<Rightarrow> Part \<Rightarrow> int \<Rightarrow> StepTokenDelta" where
  "categorizeBefore delta part tokens =
     (let d1 = delta\<lparr>tokensBefore := tokensBefore delta + tokens\<rparr>;
          d2 = (if tool part = ''read'' then d1\<lparr>readTokensBefore := readTokensBefore d1 + tokens\<rparr>
                else d1)
      in if tool part = ''edit'' \<or> tool part = ''multiedit'' \<or> tool part = ''write''
         then d2\<lparr>editTokensBefore := editTokensBefore d2 + tokens\<rparr> else d2)"

definition categorizeAfter :: "StepTokenDelta \<Rightarrow> Part \<Rightarrow> int \<Rightarrow> StepTokenDelta" where
  "categorizeAfter delta part tokens =
     (let d1 = delta\<lparr>tokensAfter := tokensAfter delta + tokens\<rparr>;
          d2 = (if tool part = ''read'' then d1\<lparr>readTokensAfter := readTokensAfter d1 + tokens\<rparr>
                else d1)
      in if tool part = ''edit'' \<or> tool part = ''multiedit'' \<or> tool part = ''write''
         then d2\<lparr>editTokensAfter := editTokensAfter d2 + tokens\<rparr> else d2)"

text \<open>Node's \<open>path.relative\<close> on POSIX paths.\<close>

fun common_prefix_length :: "string list \<Rightarrow> string list \<Rightarrow> nat" where
  "common_prefix_length (x # xs) (y # ys) = (if x = y then Suc (common_prefix_length xs ys) else 0)"
| "common_prefix_length _ _ = 0"

definition path_relative :: "host \<Rightarrow> string \<Rightarrow> string \<Rightarrow> string" where
  "path_relative h fromPath toPath =
     (if fromPath = toPath then []
      else let f = path_resolve h [fromPath];
               t = path_resolve h [toPath]
           in if f = t then []
              else let fs = filter (\<lambda>seg. seg \<noteq> []) (split_on CHR ''/'' f);
                       ts = filter (\<lambda>seg. seg \<noteq> []) (split_on CHR ''/'' t);
                       n = common_prefix_length fs ts
                   in join_with ''/'' (replicate (length fs - n) ''..'' @ drop n ts))"

definition is_callid_char :: "char \<Rightarrow> bool" where
  "is_callid_char c =
     (c \<in> set ''abcdefghijklmnopqrstuvwxyzABCDEFGHIJKLMNOPQRSTUVWXYZ0123456789_-'')"

text \<open>\<open>now\<close> is the value \<open>Date.now()\<close> returns.\<close>

definition makeSyntheticReadPart :: "int \<Rightarrow> string \<Rightarrow> string \<Rightarrow> string \<Rightarrow> Part" where
  "makeSyntheticReadPart now filePath out label =
     ToolPart None
       (Some (''context-jar-final-read-'' @ map (\<lambda>c. if is_callid_char c then c else CHR ''_'') label))
       ''read''
       (Completed [(''filePath'', JStr filePath)] out label
          [(''preview'', JStr (join_with [CHR 0x0A] (take 20 (split_on CHR 0x0A out))))]
          now now None)
       None"

fun findLastAssistant_from :: "ChatMessage list \<Rightarrow> nat \<Rightarrow> nat option" where
  "findLastAssistant_from messages 0 = None"
| "findLastAssistant_from messages (Suc i) =
     (if role (messages ! i) = ''assistant'' then Some i
      else findLastAssistant_from messages i)"

text \<open>The index of the last assistant message: the message the source returns.\<close>

definition findLastAssistant :: "ChatMessage list \<Rightarrow> nat option" where
  "findLastAssistant messages = findLastAssistant_from messages (length messages)"

text \<open>The wipe loop on one part: the part is pushed to \<open>nextParts\<close> or dropped.\<close>

definition wipe_part ::
  "host \<Rightarrow> string option \<Rightarrow> string list \<Rightarrow> string list \<Rightarrow> string set \<Rightarrow> Gathered
     \<Rightarrow> Part \<Rightarrow> Part list \<times> StepTokenDelta \<Rightarrow> Part list \<times> StepTokenDelta" where
  "wipe_part h worktreeRoot exts pats invalidatedFiles g rawPart acc =
     (case acc of (nextParts, delta) \<Rightarrow>
        if \<not> is_tool rawPart then (nextParts @ [rawPart], delta)
        else if \<not> isCompletedToolPart rawPart then (nextParts @ [rawPart], delta)
        else case extractPrimaryFilePath h rawPart worktreeRoot of
          None \<Rightarrow> (nextParts @ [rawPart], delta)
        | Some filePath \<Rightarrow>
            if filePath = [] then (nextParts @ [rawPart], delta)
            else if isFileProtected filePath exts pats then (nextParts @ [rawPart], delta)
            else if \<not> (filePath \<in> set (editedFiles g) \<or> filePath \<in> invalidatedFiles)
            then (nextParts @ [rawPart], delta)
            else if tool rawPart = ''read'' \<or> tool rawPart = ''edit''
                    \<or> tool rawPart = ''multiedit'' \<or> tool rawPart = ''write''
            then
              (let tokens = toolPartTokens h rawPart;
                   d = categorizeBefore delta rawPart tokens
               in (nextParts,
                   if filePath \<in> invalidatedFiles
                   then d\<lparr>invalidatedTokensBefore := invalidatedTokensBefore d + tokens\<rparr>
                   else d))
            else (nextParts @ [rawPart], delta))"

definition wipe_message ::
  "host \<Rightarrow> string option \<Rightarrow> string list \<Rightarrow> string list \<Rightarrow> string set \<Rightarrow> Gathered
     \<Rightarrow> ChatMessage \<Rightarrow> ChatMessage list \<times> StepTokenDelta \<Rightarrow> ChatMessage list \<times> StepTokenDelta" where
  "wipe_message h worktreeRoot exts pats invalidatedFiles g message acc =
     (case acc of (seen, delta) \<Rightarrow>
        (case fold (wipe_part h worktreeRoot exts pats invalidatedFiles g) (parts message)
                ([], delta) of
           (nextParts, delta') \<Rightarrow> (seen @ [message\<lparr>parts := nextParts\<rparr>], delta')))"

text \<open>The synthetic read built for an edited file from its latest content.\<close>

definition syntheticReadFor ::
  "host \<Rightarrow> int \<Rightarrow> string option \<Rightarrow> FinalContent \<Rightarrow> string \<Rightarrow> Part" where
  "syntheticReadFor h now worktreeRoot latest filePath =
     (let label = (case worktreeRoot of
                     Some r \<Rightarrow> if r \<noteq> [] then path_relative h r filePath else filePath
                   | None \<Rightarrow> filePath);
          out = (if isAlreadyReadFormatted latest then final_content latest
                 else renderReadLikeOutput (final_content latest))
      in makeSyntheticReadPart now filePath out label)"

text \<open>One synthetic read for an edited file, pushed to the target assistant message.\<close>

definition attach_step ::
  "host \<Rightarrow> int \<Rightarrow> string option \<Rightarrow> Gathered \<Rightarrow> nat \<Rightarrow> string
     \<Rightarrow> ChatMessage list \<times> StepTokenDelta \<Rightarrow> ChatMessage list \<times> StepTokenDelta" where
  "attach_step h now worktreeRoot g target filePath acc =
     (case acc of (messages, delta) \<Rightarrow>
        (case final_latestByFile g filePath of
           None \<Rightarrow> (messages, delta)
         | Some latest \<Rightarrow>
             let synthetic = syntheticReadFor h now worktreeRoot latest filePath;
                 d = categorizeAfter delta synthetic (toolPartTokens h synthetic)
             in (messages[target := (messages ! target)
                            \<lparr>parts := parts (messages ! target) @ [synthetic]\<rparr>],
                 d\<lparr>filesConsolidated := filesConsolidated d + 1\<rparr>)))"

definition finalizeEditedFilesForNextStep ::
  "host \<Rightarrow> int \<Rightarrow> ChatMessage list \<Rightarrow> WhitelistConfig \<Rightarrow> string set
     \<Rightarrow> ChatMessage list \<times> StepTokenDelta" where
  "finalizeEditedFilesForNextStep h now messages config invalidatedFiles =
     (let worktreeRoot = inferWorktreeRoot messages;
          g = finalize_gather h messages config invalidatedFiles;
          delta = emptyDelta\<lparr>filesInvalidated :=
                    int (length (filter (\<lambda>filePath. filePath \<in> invalidatedFiles) (allTouchedFiles g)))\<rparr>
      in if editedFiles g = [] \<and> filesInvalidated delta = 0 then (messages, delta)
         else
           (case fold (wipe_message h worktreeRoot (protectedExtensions config)
                         (protectedPatterns config) invalidatedFiles g)
                      messages ([], delta) of
              (wiped, delta') \<Rightarrow>
                (case findLastAssistant wiped of
                   None \<Rightarrow> (wiped, delta')
                 | Some target \<Rightarrow>
                     fold (attach_step h now worktreeRoot g target) (editedFiles g) (wiped, delta'))))"

section \<open>A concrete host\<close>

text \<open>
  \<open>JSON.stringify\<close> on the values of the model: no white space, strings quoted and
  escaped, object fields in insertion order.
\<close>

definition hex_digit :: "nat \<Rightarrow> char" where
  "hex_digit d = (''0123456789abcdef'') ! d"

definition json_escape_char :: "char \<Rightarrow> string" where
  "json_escape_char c =
     (if c = CHR 0x22 then [CHR 0x5C, CHR 0x22]
      else if c = CHR 0x5C then [CHR 0x5C, CHR 0x5C]
      else if c = CHR 0x08 then [CHR 0x5C, CHR ''b'']
      else if c = CHR 0x0C then [CHR 0x5C, CHR ''f'']
      else if c = CHR 0x0A then [CHR 0x5C, CHR ''n'']
      else if c = CHR 0x0D then [CHR 0x5C, CHR ''r'']
      else if c = CHR 0x09 then [CHR 0x5C, CHR ''t'']
      else if (of_char c :: nat) < 32
      then [CHR 0x5C, CHR ''u'', CHR ''0'', CHR ''0'',
            hex_digit (of_char c div 16), hex_digit (of_char c mod 16)]
      else [c])"

definition json_quote :: "string \<Rightarrow> string" where
  "json_quote s = [CHR 0x22] @ concat (map json_escape_char s) @ [CHR 0x22]"

fun json_text :: "json \<Rightarrow> string" where
  "json_text JNull = ''null''"
| "json_text (JBool b) = (if b then ''true'' else ''false'')"
| "json_text (JNum n) = (if n < 0 then ''-'' @ show_nat (nat (- n)) else show_nat (nat n))"
| "json_text (JStr s) = json_quote s"
| "json_text (JArr xs) = ''['' @ join_with '','' (map json_text xs) @ '']''"
| "json_text (JObj kvs) =
     ''{'' @ join_with '','' (map (\<lambda>kv. json_quote (fst kv) @ '':'' @ json_text (snd kv)) kvs) @ ''}''"

text \<open>
  A POSIX host whose tokenizer is unavailable, so that \<open>estimateTokens\<close> takes its
  length-based fallback.
\<close>

definition posix_host :: host where
  "posix_host =
     \<lparr>homedir = ''/home/user'', cwd = ''/work'', encode_length = (\<lambda>s. None),
      stringify = (\<lambda>r. Some (json_text (JObj r)))\<rparr>"

section \<open>Notions used to state the claims\<close>

text \<open>A completed file-operation part (read, edit, multiedit or write) that resolves to \<open>f\<close>.\<close>

definition file_op_of :: "host \<Rightarrow> string option \<Rightarrow> Part \<Rightarrow> string \<Rightarrow> bool" where
  "file_op_of h worktreeRoot p f =
     (isCompletedToolPart p \<and> isFileTool (tool p)
      \<and> extractPrimaryFilePath h p worktreeRoot = Some f)"

text \<open>The condition under which pass 3 of the consolidation pushes a part.\<close>

definition pass3_keeps ::
  "host \<Rightarrow> string option \<Rightarrow> string list \<Rightarrow> string list \<Rightarrow> string set \<Rightarrow> Pass1 \<Rightarrow> Pass2
     \<Rightarrow> Part \<Rightarrow> bool" where
  "pass3_keeps h worktreeRoot exts pats invalidatedFiles s1 s2 p =
     (case (if isCompletedToolPart p \<and> isFileTool (tool p)
            then extractPrimaryFilePath h p worktreeRoot else None) of
        None \<Rightarrow> True
      | Some f \<Rightarrow>
          f \<notin> set (filesWithHistory s1) \<or> isFileProtected f exts pats
          \<or> (f \<notin> invalidatedFiles
              \<and> (f \<notin> filesToConsolidate s2
                  \<or> (tool p = ''read''
                      \<and> (case callID p of None \<Rightarrow> False
                          | Some c \<Rightarrow> c \<noteq> [] \<and> c \<in> keepCallIDs s2)))))"

text \<open>The condition under which the wipe loop of the finalization pushes a part.\<close>

definition wipe_keeps ::
  "host \<Rightarrow> string option \<Rightarrow> string list \<Rightarrow> string list \<Rightarrow> string set \<Rightarrow> Gathered
     \<Rightarrow> Part \<Rightarrow> bool" where
  "wipe_keeps h worktreeRoot exts pats invalidatedFiles g p =
     (case (if isCompletedToolPart p \<and> isFileTool (tool p)
            then extractPrimaryFilePath h p worktreeRoot else None) of
        None \<Rightarrow> True
      | Some f \<Rightarrow>
          isFileProtected f exts pats
          \<or> (f \<notin> set (editedFiles g) \<and> f \<notin> invalidatedFiles))"

text \<open>A position that names a part of the window.\<close>

definition valid_pos :: "ChatMessage list \<Rightarrow> nat \<times> nat \<Rightarrow> bool" where
  "valid_pos messages pos =
     (fst pos < length messages \<and> snd pos < length (parts (messages ! fst pos)))"

text \<open>
  A part the consolidation tracks for the file \<open>f\<close>: a completed file operation on a file
  that is not protected.
\<close>

definition tracked ::
  "host \<Rightarrow> string option \<Rightarrow> string list \<Rightarrow> string list \<Rightarrow> Part \<Rightarrow> string \<Rightarrow> bool" where
  "tracked h worktreeRoot exts pats p f =
     (file_op_of h worktreeRoot p f \<and> \<not> isFileProtected f exts pats)"

text \<open>A read the consolidation can keep: tracked, not invalidated, with a non-empty output.\<close>

definition live_read ::
  "host \<Rightarrow> string option \<Rightarrow> string list \<Rightarrow> string list \<Rightarrow> string set \<Rightarrow> Part \<Rightarrow> string
     \<Rightarrow> bool" where
  "live_read h worktreeRoot exts pats invalidatedFiles p f =
     (tracked h worktreeRoot exts pats p f \<and> tool p = ''read'' \<and> f \<notin> invalidatedFiles
      \<and> output_str (state p) \<noteq> [])"

text \<open>The \<open>callID ?? ""\<close> of a part.\<close>

definition callID_or_empty :: "Part \<Rightarrow> string" where
  "callID_or_empty p = (case callID p of Some c \<Rightarrow> c | None \<Rightarrow> [])"

text \<open>The content a tracked part of a file that is not invalidated records in pass 1.\<close>

definition snapshot_of :: "Part \<Rightarrow> LatestContent option" where
  "snapshot_of p =
     (if tool p = ''read'' then
        (if output_str (state p) \<noteq> []
         then Some \<lparr>content = output_str (state p), contentKind = ReadOutput\<rparr> else None)
      else if tool p = ''edit'' \<or> tool p = ''multiedit'' then
        map_option (\<lambda>a. \<lparr>content = a, contentKind = RawText\<rparr>)
          (extractAfterFromEditMetadata (metadata (state p)))
      else if tool p = ''write'' then
        map_option (\<lambda>c. \<lparr>content = c, contentKind = RawText\<rparr>)
          (str_field (input (state p)) ''content'')
      else None)"

text \<open>
  A part neither engine may touch: not a tool part, not completed, not one of the four
  file tools, or without a path that resolves.
\<close>

definition outside_scope :: "host \<Rightarrow> string option \<Rightarrow> Part \<Rightarrow> bool" where
  "outside_scope h worktreeRoot p =
     (\<not> is_tool p \<or> \<not> isCompletedToolPart p \<or> \<not> isFileTool (tool p)
      \<or> extractPrimaryFilePath h p worktreeRoot = None)"

text \<open>A part of a protected file: its path resolves to a file the predicate protects.\<close>

definition protected_part ::
  "host \<Rightarrow> string option \<Rightarrow> WhitelistConfig \<Rightarrow> Part \<Rightarrow> bool" where
  "protected_part h worktreeRoot config p =
     (case extractPrimaryFilePath h p worktreeRoot of
        None \<Rightarrow> False
      | Some f \<Rightarrow> isFileProtected f (protectedExtensions config) (protectedPatterns config))"

text \<open>All parts of the window, in order.\<close>

definition all_parts :: "ChatMessage list \<Rightarrow> Part list" where
  "all_parts messages = concat (map parts messages)"

text \<open>
  A completed tool part (of any tool) whose path resolves to the unprotected file \<open>f\<close>:
  what the finalization records as a touched file.
\<close>

definition touches ::
  "host \<Rightarrow> string option \<Rightarrow> string list \<Rightarrow> string list \<Rightarrow> Part \<Rightarrow> string \<Rightarrow> bool" where
  "touches h worktreeRoot exts pats p f =
     (isCompletedToolPart p \<and> extractPrimaryFilePath h p worktreeRoot = Some f
      \<and> \<not> isFileProtected f exts pats)"

text \<open>
  A part that makes \<open>f\<close> an edited file for the finalization: an edit or multiedit whose
  metadata holds the content after the edit, or a write with its content, on a file that
  is not invalidated.
\<close>

definition edits_file ::
  "host \<Rightarrow> string option \<Rightarrow> string list \<Rightarrow> string list \<Rightarrow> string set \<Rightarrow> Part \<Rightarrow> string
     \<Rightarrow> bool" where
  "edits_file h worktreeRoot exts pats invalidatedFiles p f =
     (touches h worktreeRoot exts pats p f \<and> f \<notin> invalidatedFiles
      \<and> (((tool p = ''edit'' \<or> tool p = ''multiedit'')
            \<and> extractAfterFromEditMetadata (metadata (state p)) \<noteq> None)
           \<or> (tool p = ''write'' \<and> str_field (input (state p)) ''content'' \<noteq> None)))"

text \<open>The synthetic reads the finalization builds for a list of edited files.\<close>

definition synthetic_reads ::
  "host \<Rightarrow> int \<Rightarrow> string option \<Rightarrow> Gathered \<Rightarrow> string list \<Rightarrow> Part list" where
  "synthetic_reads h now worktreeRoot g files =
     concat (map (\<lambda>f. case final_latestByFile g f of
                         None \<Rightarrow> []
                       | Some latest \<Rightarrow> [syntheticReadFor h now worktreeRoot latest f]) files)"

text \<open>
  A completed file-operation part of an unprotected file of the invalidation set: what
  both engines wipe whatever else the window holds.
\<close>

definition invalidated_op ::
  "host \<Rightarrow> string option \<Rightarrow> WhitelistConfig \<Rightarrow> string set \<Rightarrow> Part \<Rightarrow> bool" where
  "invalidated_op h worktreeRoot config invalidatedFiles p =
     (case extractPrimaryFilePath h p worktreeRoot of
        None \<Rightarrow> False
      | Some f \<Rightarrow>
          isCompletedToolPart p \<and> isFileTool (tool p)
          \<and> \<not> isFileProtected f (protectedExtensions config) (protectedPatterns config)
          \<and> f \<in> invalidatedFiles)"

text \<open>A part that makes some file an edited file for the finalization.\<close>

definition edit_snapshot_part ::
  "host \<Rightarrow> string option \<Rightarrow> WhitelistConfig \<Rightarrow> string set \<Rightarrow> Part \<Rightarrow> bool" where
  "edit_snapshot_part h worktreeRoot config invalidatedFiles p =
     (case extractPrimaryFilePath h p worktreeRoot of
        None \<Rightarrow> False
      | Some f \<Rightarrow>
          edits_file h worktreeRoot (protectedExtensions config) (protectedPatterns config)
            invalidatedFiles p f)"

text \<open>The resolved path of the part, if any, resolves to itself.\<close>

definition resolves_to_itself :: "host \<Rightarrow> string option \<Rightarrow> Part \<Rightarrow> bool" where
  "resolves_to_itself h worktreeRoot p =
     (case extractPrimaryFilePath h p worktreeRoot of
        None \<Rightarrow> True
      | Some f \<Rightarrow> normalizeFilePath h (Some f) worktreeRoot = Some f)"

text \<open>The completed read parts of the window, in order.\<close>

definition completed_reads :: "ChatMessage list \<Rightarrow> Part list" where
  "completed_reads messages =
     filter (\<lambda>p. isCompletedToolPart p \<and> tool p = ''read'') (all_parts messages)"



text \<open>
  What an engine may do with the part in one slot of a message: a part outside its scope
  stays as it is; a part in its scope stays as it is or is the same part with another
  output, another \<open>filePath\<close> in its input and no compacted marker, and is still in scope.
\<close>

definition same_slot :: "host \<Rightarrow> string option \<Rightarrow> Part \<Rightarrow> Part \<Rightarrow> bool" where
  "same_slot h worktreeRoot p q =
     (if outside_scope h worktreeRoot p then q = p
      else \<not> outside_scope h worktreeRoot q
           \<and> (q = p
               \<or> q = rewrite_keeper p (output_str (state q))
                     (case str_field (input (state q)) ''filePath'' of Some f \<Rightarrow> f | None \<Rightarrow> [])))"

section \<open>Example parts and windows\<close>

definition read_part :: "string \<Rightarrow> string \<Rightarrow> string \<Rightarrow> Part" where
  "read_part cid filePath out =
     ToolPart None (Some cid) ''read''
       (Completed [(''filePath'', JStr filePath)] out filePath [] 0 1 None) None"

definition edit_part :: "string \<Rightarrow> string \<Rightarrow> string \<Rightarrow> Part" where
  "edit_part cid filePath after =
     ToolPart None (Some cid) ''edit''
       (Completed [(''filePath'', JStr filePath), (''oldString'', JStr ''a''),
                   (''newString'', JStr ''b'')]
          ''ok'' filePath [(''filediff'', JObj [(''after'', JStr after)])] 0 1 None) None"

definition text_part :: "string \<Rightarrow> Part" where
  "text_part t = OtherPart ''text'' [(''text'', JStr t)]"

definition pending_read :: "string \<Rightarrow> string \<Rightarrow> Part" where
  "pending_read cid filePath =
     ToolPart None (Some cid) ''read'' (Pending [(''filePath'', JStr filePath)] []) None"

definition user_message :: "Part list \<Rightarrow> ChatMessage" where
  "user_message ps = \<lparr>role = ''user'', path_root = None, parts = ps\<rparr>"

definition assistant_message :: "Part list \<Rightarrow> ChatMessage" where
  "assistant_message ps = \<lparr>role = ''assistant'', path_root = None, parts = ps\<rparr>"

text \<open>The default configuration protects \<open>.md\<close> and \<open>.txt\<close> files.\<close>

definition example_config :: WhitelistConfig where
  "example_config =
     \<lparr>allowedModels = [], enforced = False,
      protectedFiles = Some \<lparr>extensions = [''.md'', ''.txt''], patterns = [''README*'']\<rparr>\<rparr>"

text \<open>A user turn, then an assistant turn that reads, edits and reads again.\<close>

definition example_window :: "ChatMessage list" where
  "example_window =
     [user_message [text_part ''hi''],
      assistant_message
        [read_part ''c1'' ''/p/a.ts'' ''old'', pending_read ''c0'' ''/p/a.ts'',
         read_part ''c2'' ''/p/notes.md'' ''n'', edit_part ''c3'' ''/p/a.ts'' ''X'',
         read_part ''c4'' ''/p/a.ts'' ''new'']]"

text \<open>A window with no assistant message: a user turn that carries two reads.\<close>

definition user_only_window :: "ChatMessage list" where
  "user_only_window =
     [user_message
        [text_part ''hi'', read_part ''c1'' ''/p/a.ts'' ''old'',
         read_part ''c2'' ''/p/b.ts'' ''stale'']]"

text \<open>
  A read, and an edit, of the path \<open>/p/b\<close> followed by two single quote characters:
  \<open>normalizeFilePath\<close> strips one of the quotes, and one more when it is applied to its
  own result.
\<close>

definition quoted_path :: string where
  "quoted_path = ''/p/b'' @ [CHR 0x27, CHR 0x27]"

definition quoted_read_window :: "ChatMessage list" where
  "quoted_read_window = [assistant_message [read_part ''c1'' quoted_path ''x'']]"

definition quoted_edit_window :: "ChatMessage list" where
  "quoted_edit_window = [assistant_message [edit_part ''c1'' quoted_path ''X'']]"


text \<open>An assistant turn with two completed reads of one file, both with an empty output.\<close>

definition empty_reads_window :: "ChatMessage list" where
  "empty_reads_window =
     [assistant_message [read_part ''c1'' ''/p/a.ts'' [], read_part ''c2'' ''/p/a.ts'' []]]"


text \<open>
  An assistant turn that edits \<open>/p/e.ts\<close> and reads the path \<open>/p/e.ts\<close> followed by two
  single quote characters, which resolves to \<open>/p/e.ts\<close> followed by one.
\<close>

definition quoted_neighbour_window :: "ChatMessage list" where
  "quoted_neighbour_window =
     [assistant_message
        [edit_part ''c1'' ''/p/e.ts'' ''E'',
         read_part ''c2'' (''/p/e.ts'' @ [CHR 0x27, CHR 0x27]) ''x'']]"


section \<open>Lemmas about the engines\<close>

lemma path_normalize_nonempty: "path_normalize p \<noteq> []"
  by (simp add: path_normalize_def Let_def)

lemma normalizeFilePath_nonempty: "normalizeFilePath h fp root = Some f \<Longrightarrow> f \<noteq> []"
  by (auto simp: normalizeFilePath_def Let_def path_normalize_nonempty
           split: option.splits if_splits list.splits)

lemma extract_nonempty: "extractPrimaryFilePath h p root = Some f \<Longrightarrow> f \<noteq> []"
  by (auto simp: extractPrimaryFilePath_def normalizeFilePath_nonempty
           split: Part.splits option.splits)

lemma completed_is_tool: "isCompletedToolPart p \<Longrightarrow> is_tool p"
  by (auto simp: isCompletedToolPart_def is_tool_def split: Part.splits)

lemma pass3_part_fst:
  "fst (pass3_part h root exts pats inval s1 s2 p (acc, d))
     = (if pass3_keeps h root exts pats inval s1 s2 p then acc @ [p] else acc)"
  by (auto simp: pass3_part_def pass3_keeps_def Let_def completed_is_tool
           dest: extract_nonempty split: option.splits)

lemma fold_pass3_part_fst:
  "fst (fold (pass3_part h root exts pats inval s1 s2) ps (acc, d))
     = acc @ filter (pass3_keeps h root exts pats inval s1 s2) ps"
proof (induction ps arbitrary: acc d)
  case Nil
  then show ?case by simp
next
  case (Cons p ps)
  obtain acc' d' where st: "pass3_part h root exts pats inval s1 s2 p (acc, d) = (acc', d')"
    by (cases "pass3_part h root exts pats inval s1 s2 p (acc, d)")
  have "acc' = (if pass3_keeps h root exts pats inval s1 s2 p then acc @ [p] else acc)"
    using pass3_part_fst [of h root exts pats inval s1 s2 p acc d] st by simp
  then show ?case using Cons.IH [of acc' d'] st by simp
qed

lemma fold_pass3_message_fst:
  "fst (fold (pass3_message h root exts pats inval s1 s2) ms (acc, d))
     = acc @ map (\<lambda>m. m\<lparr>parts := filter (pass3_keeps h root exts pats inval s1 s2) (parts m)\<rparr>) ms"
proof (induction ms arbitrary: acc d)
  case Nil
  then show ?case by simp
next
  case (Cons m ms)
  obtain np d' where st:
    "fold (pass3_part h root exts pats inval s1 s2) (parts m) ([], d) = (np, d')"
    by (cases "fold (pass3_part h root exts pats inval s1 s2) (parts m) ([], d)")
  have np: "np = filter (pass3_keeps h root exts pats inval s1 s2) (parts m)"
    using fold_pass3_part_fst [of h root exts pats inval s1 s2 "parts m" "[]" d] st by simp
  have "pass3_message h root exts pats inval s1 s2 m (acc, d)
          = (acc @ [m\<lparr>parts := np\<rparr>], d')"
    by (simp add: pass3_message_def st)
  then show ?case using Cons.IH [of "acc @ [m\<lparr>parts := np\<rparr>]" d'] np by simp
qed

lemma wipe_part_fst:
  "fst (wipe_part h root exts pats inval g p (acc, d))
     = (if wipe_keeps h root exts pats inval g p then acc @ [p] else acc)"
  by (auto simp: wipe_part_def wipe_keeps_def Let_def completed_is_tool isFileTool_def
           dest: extract_nonempty split: option.splits)

lemma length_set_part [simp]: "length (set_part ms pos p) = length ms"
  by (simp add: set_part_def)

lemma set_part_nth:
  "set_part ms pos p ! i
     = (if i = fst pos \<and> fst pos < length ms
        then (ms ! i)\<lparr>parts := (parts (ms ! i))[snd pos := p]\<rparr> else ms ! i)"
proof (cases "fst pos < length ms")
  case True
  then show ?thesis by (simp add: set_part_def nth_list_update)
next
  case False
  then show ?thesis by (simp add: set_part_def list_update_beyond)
qed

lemma set_part_shape:
  "role (set_part ms pos p ! i) = role (ms ! i)"
  "path_root (set_part ms pos p ! i) = path_root (ms ! i)"
  "length (parts (set_part ms pos p ! i)) = length (parts (ms ! i))"
  by (simp_all add: set_part_nth)

lemma valid_pos_set_part [simp]: "valid_pos (set_part ms pos p) pos' = valid_pos ms pos'"
  by (simp add: valid_pos_def set_part_shape)

lemma part_at_set_part:
  "part_at (set_part ms pos p) pos' = (if pos' = pos \<and> valid_pos ms pos then p else part_at ms pos')"
proof (cases "snd pos < length (parts (ms ! fst pos))")
  case True
  then show ?thesis
    by (auto simp: part_at_def set_part_nth valid_pos_def prod_eq_iff nth_list_update)
next
  case False
  then show ?thesis
    by (auto simp: part_at_def set_part_nth valid_pos_def list_update_beyond)
qed

lemma rewrite_keeper_sel [simp]:
  "callID (rewrite_keeper p out f) = callID p"
  "tool (rewrite_keeper p out f) = tool p"
  "isCompletedToolPart (rewrite_keeper p out f) = isCompletedToolPart p"
  "is_tool (rewrite_keeper p out f) = is_tool p"
  by (auto simp: rewrite_keeper_def removeCompactedMarker_def isCompletedToolPart_def is_tool_def
           split: Part.splits ToolState.splits)

lemma pass2_step_window_cases:
  "window (pass2_step inval s1 f st) = window st
   \<or> (\<exists>pos. f \<notin> inval \<and> lastReadByFile s1 f = Some pos
        \<and> window (pass2_step inval s1 f st)
            = set_part (window st) pos
                (rewrite_keeper (part_at (window st) pos)
                   (normalizedOutput s1 f (part_at (window st) pos)) f))"
  by (auto simp: pass2_step_def Let_def split: option.splits)

lemma pass2_step_shape:
  "length (window (pass2_step inval s1 f st)) = length (window st)"
  "role (window (pass2_step inval s1 f st) ! i) = role (window st ! i)"
  "path_root (window (pass2_step inval s1 f st) ! i) = path_root (window st ! i)"
  "length (parts (window (pass2_step inval s1 f st) ! i)) = length (parts (window st ! i))"
  using pass2_step_window_cases [of inval s1 f st]
  by (auto simp: set_part_shape)

lemma fold_pass2_shape:
  "length (window (fold (pass2_step inval s1) fs st)) = length (window st)
   \<and> role (window (fold (pass2_step inval s1) fs st) ! i) = role (window st ! i)
   \<and> path_root (window (fold (pass2_step inval s1) fs st) ! i) = path_root (window st ! i)
   \<and> length (parts (window (fold (pass2_step inval s1) fs st) ! i)) = length (parts (window st ! i))"
  by (induction fs arbitrary: st) (simp_all add: pass2_step_shape)

lemma fold_pass2_valid_pos [simp]:
  "valid_pos (window (fold (pass2_step inval s1) fs st)) pos = valid_pos (window st) pos"
  by (simp add: valid_pos_def fold_pass2_shape)

lemma pass2_step_part_other:
  "f \<in> inval \<or> lastReadByFile s1 f \<noteq> Some pos
   \<Longrightarrow> part_at (window (pass2_step inval s1 f st)) pos = part_at (window st) pos"
  by (auto simp: pass2_step_def Let_def part_at_set_part split: option.splits)

lemma fold_pass2_part_other:
  "\<forall>f \<in> set fs. f \<in> inval \<or> lastReadByFile s1 f \<noteq> Some pos
   \<Longrightarrow> part_at (window (fold (pass2_step inval s1) fs st)) pos = part_at (window st) pos"
  by (induction fs arbitrary: st) (simp_all add: pass2_step_part_other)

lemma pass2_step_part_keeper:
  "f \<notin> inval \<Longrightarrow> lastReadByFile s1 f = Some pos \<Longrightarrow> valid_pos (window st) pos
   \<Longrightarrow> part_at (window (pass2_step inval s1 f st)) pos
        = rewrite_keeper (part_at (window st) pos) (normalizedOutput s1 f (part_at (window st) pos)) f"
  by (simp add: pass2_step_def Let_def part_at_set_part)

lemma fold_pass2_part_keeper:
  assumes "distinct fs" and "f \<in> set fs" and "f \<notin> inval"
    and "lastReadByFile s1 f = Some pos" and "valid_pos (window st) pos"
    and "\<forall>g \<in> set fs. g \<noteq> f \<longrightarrow> lastReadByFile s1 g \<noteq> Some pos"
  shows "part_at (window (fold (pass2_step inval s1) fs st)) pos
           = rewrite_keeper (part_at (window st) pos)
               (normalizedOutput s1 f (part_at (window st) pos)) f"
  using assms
proof (induction fs arbitrary: st)
  case Nil
  then show ?case by simp
next
  case (Cons g fs)
  show ?case
  proof (cases "g = f")
    case True
    have rest: "\<forall>g' \<in> set fs. g' \<in> inval \<or> lastReadByFile s1 g' \<noteq> Some pos"
      using Cons.prems True by auto
    show ?thesis
      using True Cons.prems
      by (simp add: fold_pass2_part_other [OF rest] pass2_step_part_keeper)
  next
    case False
    have same: "part_at (window (pass2_step inval s1 g st)) pos = part_at (window st) pos"
      using Cons.prems False by (intro pass2_step_part_other) auto
    have v: "valid_pos (window (pass2_step inval s1 g st)) pos"
      using Cons.prems(5) by (simp add: valid_pos_def pass2_step_shape)
    have "part_at (window (fold (pass2_step inval s1) fs (pass2_step inval s1 g st))) pos
            = rewrite_keeper (part_at (window (pass2_step inval s1 g st)) pos)
                (normalizedOutput s1 f (part_at (window (pass2_step inval s1 g st)) pos)) f"
      using Cons.prems False v by (intro Cons.IH) auto
    then show ?thesis by (simp add: same)
  qed
qed

lemma pass2_step_callID:
  "callID (part_at (window (pass2_step inval s1 f st)) pos) = callID (part_at (window st) pos)"
  by (auto simp: pass2_step_def Let_def part_at_set_part split: option.splits)

lemma fold_pass2_callID:
  "callID (part_at (window (fold (pass2_step inval s1) fs st)) pos) = callID (part_at (window st) pos)"
  by (induction fs arbitrary: st) (simp_all add: pass2_step_callID)

lemma pass2_step_keepCallIDs:
  "c \<in> keepCallIDs (pass2_step inval s1 g st)
     \<longleftrightarrow> c \<in> keepCallIDs st
         \<or> (\<exists>pos. g \<notin> inval \<and> lastReadByFile s1 g = Some pos
                \<and> c = callID_or_empty (part_at (window st) pos))"
  by (auto simp: pass2_step_def Let_def callID_or_empty_def split: option.splits)

lemma fold_pass2_keepCallIDs:
  "c \<in> keepCallIDs (fold (pass2_step inval s1) fs st)
     \<longleftrightarrow> c \<in> keepCallIDs st
         \<or> (\<exists>g \<in> set fs. \<exists>pos. g \<notin> inval \<and> lastReadByFile s1 g = Some pos
                \<and> c = callID_or_empty (part_at (window st) pos))"
proof (induction fs arbitrary: st)
  case Nil
  then show ?case by simp
next
  case (Cons g fs)
  have cid: "\<And>pos. callID_or_empty (part_at (window (pass2_step inval s1 g st)) pos)
                  = callID_or_empty (part_at (window st) pos)"
    by (simp add: callID_or_empty_def pass2_step_callID)
  have "c \<in> keepCallIDs (fold (pass2_step inval s1) (g # fs) st)
          \<longleftrightarrow> c \<in> keepCallIDs (pass2_step inval s1 g st)
              \<or> (\<exists>g' \<in> set fs. \<exists>pos. g' \<notin> inval \<and> lastReadByFile s1 g' = Some pos
                     \<and> c = callID_or_empty (part_at (window st) pos))"
    using Cons.IH [of "pass2_step inval s1 g st"] by (simp add: cid)
  then show ?case
    unfolding pass2_step_keepCallIDs by (simp only: set_simps bex_simps) blast
qed

lemma pass2_step_filesToConsolidate:
  "f \<in> filesToConsolidate (pass2_step inval s1 g st)
     \<longleftrightarrow> f \<in> filesToConsolidate st \<or> (f = g \<and> g \<notin> inval \<and> lastReadByFile s1 g \<noteq> None)"
  by (auto simp: pass2_step_def Let_def split: option.splits)

lemma fold_pass2_filesToConsolidate:
  "f \<in> filesToConsolidate (fold (pass2_step inval s1) fs st)
     \<longleftrightarrow> f \<in> filesToConsolidate st
         \<or> (f \<in> set fs \<and> f \<notin> inval \<and> lastReadByFile s1 f \<noteq> None)"
proof (induction fs arbitrary: st)
  case Nil
  then show ?case by simp
next
  case (Cons g fs)
  show ?case
    using Cons.IH [of "pass2_step inval s1 g st"]
    by (simp add: pass2_step_filesToConsolidate) blast
qed

lemma pass1_step_untracked:
  "\<forall>f. \<not> tracked h root exts pats p f \<Longrightarrow> pass1_step h root exts pats inval (pos, p) s = s"
  by (auto simp: pass1_step_def tracked_def file_op_of_def Let_def split: option.splits)

lemma pass1_step_tracked:
  assumes "tracked h root exts pats p f"
  shows "filesWithHistory (pass1_step h root exts pats inval (pos, p) s) = set_add f (filesWithHistory s)"
    and "filesWithRead (pass1_step h root exts pats inval (pos, p) s)
           = (if tool p = ''read'' then set_add f (filesWithRead s) else filesWithRead s)"
    and "lastReadByFile (pass1_step h root exts pats inval (pos, p) s)
           = (if live_read h root exts pats inval p f then (lastReadByFile s)(f \<mapsto> pos)
              else lastReadByFile s)"
    and "latestByFile (pass1_step h root exts pats inval (pos, p) s)
           = (if f \<in> inval then latestByFile s
              else case snapshot_of p of None \<Rightarrow> latestByFile s
                   | Some c \<Rightarrow> (latestByFile s)(f \<mapsto> c))"
proof -
  have a: "is_tool p" "isCompletedToolPart p" "isFileTool (tool p)"
    "extractPrimaryFilePath h p root = Some f" "f \<noteq> []" "\<not> isFileProtected f exts pats"
    using assms by (auto simp: tracked_def file_op_of_def completed_is_tool dest: extract_nonempty)
  have lr: "live_read h root exts pats inval p f
              = (tool p = ''read'' \<and> f \<notin> inval \<and> output_str (state p) \<noteq> [])"
    by (simp add: live_read_def assms)
  show "filesWithHistory (pass1_step h root exts pats inval (pos, p) s) = set_add f (filesWithHistory s)"
    by (simp add: pass1_step_def a Let_def split: option.split)
  show "filesWithRead (pass1_step h root exts pats inval (pos, p) s)
           = (if tool p = ''read'' then set_add f (filesWithRead s) else filesWithRead s)"
    by (simp add: pass1_step_def a Let_def split: option.split)
  show "lastReadByFile (pass1_step h root exts pats inval (pos, p) s)
           = (if live_read h root exts pats inval p f then (lastReadByFile s)(f \<mapsto> pos)
              else lastReadByFile s)"
    unfolding lr by (simp add: pass1_step_def a Let_def split: option.split)
  show "latestByFile (pass1_step h root exts pats inval (pos, p) s)
           = (if f \<in> inval then latestByFile s
              else case snapshot_of p of None \<Rightarrow> latestByFile s
                   | Some c \<Rightarrow> (latestByFile s)(f \<mapsto> c))"
    using a(3) by (simp add: pass1_step_def a(1,2,4,5,6) Let_def snapshot_of_def isFileTool_def split: option.split)
qed

lemma set_set_add [simp]: "set (set_add x xs) = insert x (set xs)"
  by (auto simp: set_add_def)

lemma distinct_set_add [simp]: "distinct (set_add x xs) = distinct xs"
  by (auto simp: set_add_def)

lemma tracked_iff:
  "tracked h root exts pats p f \<Longrightarrow> tracked h root exts pats p g \<longleftrightarrow> g = f"
  by (auto simp: tracked_def file_op_of_def)

lemma pass1_step_history:
  "g \<in> set (filesWithHistory (pass1_step h root exts pats inval e s))
     \<longleftrightarrow> g \<in> set (filesWithHistory s) \<or> tracked h root exts pats (snd e) g"
proof (cases e)
  case (Pair pos p)
  show ?thesis
  proof (cases "\<exists>f. tracked h root exts pats p f")
    case True
    then obtain f where f: "tracked h root exts pats p f" by blast
    show ?thesis
      by (auto simp: Pair pass1_step_tracked(1) [OF f] tracked_iff [OF f])
  next
    case False
    then show ?thesis
      by (simp add: Pair pass1_step_untracked)
  qed
qed

lemma pass1_step_read:
  "g \<in> set (filesWithRead (pass1_step h root exts pats inval e s))
     \<longleftrightarrow> g \<in> set (filesWithRead s)
         \<or> (tracked h root exts pats (snd e) g \<and> tool (snd e) = ''read'')"
proof (cases e)
  case (Pair pos p)
  show ?thesis
  proof (cases "\<exists>f. tracked h root exts pats p f")
    case True
    then obtain f where f: "tracked h root exts pats p f" by blast
    show ?thesis
      by (auto simp: Pair pass1_step_tracked(2) [OF f] tracked_iff [OF f])
  next
    case False
    then show ?thesis
      by (simp add: Pair pass1_step_untracked)
  qed
qed

lemma pass1_step_distinct:
  "distinct (filesWithRead (pass1_step h root exts pats inval e s)) = distinct (filesWithRead s)"
proof (cases e)
  case (Pair pos p)
  show ?thesis
  proof (cases "\<exists>f. tracked h root exts pats p f")
    case True
    then obtain f where f: "tracked h root exts pats p f" by blast
    show ?thesis
      by (simp add: Pair pass1_step_tracked(2) [OF f])
  next
    case False
    then show ?thesis
      by (simp add: Pair pass1_step_untracked)
  qed
qed

lemma live_read_iff:
  "tracked h root exts pats p f
   \<Longrightarrow> live_read h root exts pats inval p g
        \<longleftrightarrow> g = f \<and> live_read h root exts pats inval p f"
  by (auto simp: live_read_def tracked_def file_op_of_def)

lemma pass1_step_lastRead:
  "lastReadByFile (pass1_step h root exts pats inval e s) g
     = (if live_read h root exts pats inval (snd e) g then Some (fst e) else lastReadByFile s g)"
proof (cases e)
  case (Pair pos p)
  show ?thesis
  proof (cases "\<exists>f. tracked h root exts pats p f")
    case True
    then obtain f where f: "tracked h root exts pats p f" by blast
    show ?thesis
      using live_read_iff [OF f, of inval g]
      by (simp add: Pair pass1_step_tracked(3) [OF f])
  next
    case False
    then show ?thesis
      by (simp add: Pair pass1_step_untracked live_read_def)
  qed
qed


lemma fold_pass1_history:
  "g \<in> set (filesWithHistory (fold (pass1_step h root exts pats inval) es s))
     \<longleftrightarrow> g \<in> set (filesWithHistory s) \<or> (\<exists>e \<in> set es. tracked h root exts pats (snd e) g)"
  by (induction es arbitrary: s) (auto simp: pass1_step_history)

lemma fold_pass1_read:
  "g \<in> set (filesWithRead (fold (pass1_step h root exts pats inval) es s))
     \<longleftrightarrow> g \<in> set (filesWithRead s)
         \<or> (\<exists>e \<in> set es. tracked h root exts pats (snd e) g \<and> tool (snd e) = ''read'')"
  by (induction es arbitrary: s) (auto simp: pass1_step_read)

lemma fold_pass1_distinct:
  "distinct (filesWithRead (fold (pass1_step h root exts pats inval) es s)) = distinct (filesWithRead s)"
  by (induction es arbitrary: s) (simp_all add: pass1_step_distinct)

lemma fold_last_filter:
  assumes "\<And>e s. F (step e s) = (if P e then V e else F s)"
  shows "F (fold step es s) = (case filter P es of [] \<Rightarrow> F s | x # xs \<Rightarrow> V (last (x # xs)))"
proof (induction es arbitrary: s)
  case Nil
  then show ?case by simp
next
  case (Cons e es)
  show ?case
    by (cases "filter P es") (simp_all add: Cons.IH assms)
qed

lemma fold_pass1_lastRead:
  "lastReadByFile (fold (pass1_step h root exts pats inval) es s) g
     = (case filter (\<lambda>e. live_read h root exts pats inval (snd e) g) es of
          [] \<Rightarrow> lastReadByFile s g
        | x # xs \<Rightarrow> Some (fst (last (x # xs))))"
  by (rule fold_last_filter
        [where F = "\<lambda>s. lastReadByFile s g" and V = "\<lambda>e. Some (fst e)"
           and P = "\<lambda>e. live_read h root exts pats inval (snd e) g"])
     (rule pass1_step_lastRead)


lemma in_window_parts:
  "(pos, p) \<in> set (window_parts ms) \<longleftrightarrow> valid_pos ms pos \<and> p = part_at ms pos"
proof -
  obtain i j where pos: "pos = (i, j)" by (cases pos)
  have "((i, j), p) \<in> set (window_parts ms)
          \<longleftrightarrow> (\<exists>m. (i, m) \<in> set (enumerate 0 ms) \<and> (j, p) \<in> set (enumerate 0 (parts m)))"
    unfolding window_parts_def by (force simp: case_prod_unfold image_iff)
  also have "\<dots> \<longleftrightarrow> i < length ms \<and> j < length (parts (ms ! i)) \<and> p = parts (ms ! i) ! j"
    by (auto simp: in_set_enumerate_eq)
  finally show ?thesis by (simp add: pos valid_pos_def part_at_def)
qed

lemma map_snd_window_parts: "map snd (window_parts ms) = concat (map parts ms)"
proof -
  have e: "map (\<lambda>x. parts (snd x)) (enumerate n ms) = map parts ms" for n
    by (induction ms arbitrary: n) simp_all
  have "map snd (window_parts ms) = concat (map (\<lambda>x. parts (snd x)) (enumerate 0 ms))"
    by (simp add: window_parts_def map_concat comp_def case_prod_unfold)
  then show ?thesis by (simp only: e)
qed

lemma bex_window_parts:
  "(\<exists>e \<in> set (window_parts ms). Q (fst e) (snd e))
     \<longleftrightarrow> (\<exists>pos. valid_pos ms pos \<and> Q pos (part_at ms pos))"
proof
  assume "\<exists>e \<in> set (window_parts ms). Q (fst e) (snd e)"
  then obtain e where e: "e \<in> set (window_parts ms)" "Q (fst e) (snd e)" by blast
  then have "(fst e, snd e) \<in> set (window_parts ms)" by simp
  then have "valid_pos ms (fst e) \<and> snd e = part_at ms (fst e)"
    by (simp only: in_window_parts)
  with e(2) have "valid_pos ms (fst e) \<and> Q (fst e) (part_at ms (fst e))" by simp
  then show "\<exists>pos. valid_pos ms pos \<and> Q pos (part_at ms pos)" by (rule exI)
next
  assume "\<exists>pos. valid_pos ms pos \<and> Q pos (part_at ms pos)"
  then obtain pos where pos: "valid_pos ms pos" "Q pos (part_at ms pos)" by blast
  then have "(pos, part_at ms pos) \<in> set (window_parts ms)"
    by (simp add: in_window_parts)
  with pos(2) show "\<exists>e \<in> set (window_parts ms). Q (fst e) (snd e)" by force
qed

lemma cleanup_history:
  "g \<in> set (filesWithHistory (cleanup_pass1 h ms cfg inval))
     \<longleftrightarrow> (\<exists>pos. valid_pos ms pos
            \<and> tracked h (inferWorktreeRoot ms) (protectedExtensions cfg) (protectedPatterns cfg)
                 (part_at ms pos) g)"
  unfolding cleanup_pass1_def fold_pass1_history
  using bex_window_parts
    [of ms "\<lambda>pos p. tracked h (inferWorktreeRoot ms) (protectedExtensions cfg)
                       (protectedPatterns cfg) p g"]
  by (simp add: pass1_init_def)

lemma cleanup_read:
  "g \<in> set (filesWithRead (cleanup_pass1 h ms cfg inval))
     \<longleftrightarrow> (\<exists>pos. valid_pos ms pos
            \<and> tracked h (inferWorktreeRoot ms) (protectedExtensions cfg) (protectedPatterns cfg)
                 (part_at ms pos) g
            \<and> tool (part_at ms pos) = ''read'')"
  unfolding cleanup_pass1_def fold_pass1_read
  using bex_window_parts
    [of ms "\<lambda>pos p. tracked h (inferWorktreeRoot ms) (protectedExtensions cfg)
                       (protectedPatterns cfg) p g \<and> tool p = ''read''"]
  by (simp add: pass1_init_def)

lemma cleanup_read_distinct: "distinct (filesWithRead (cleanup_pass1 h ms cfg inval))"
  by (simp add: cleanup_pass1_def fold_pass1_distinct pass1_init_def)

lemma cleanup_lastRead_Some:
  assumes "lastReadByFile (cleanup_pass1 h ms cfg inval) g = Some pos"
  shows "valid_pos ms pos
         \<and> live_read h (inferWorktreeRoot ms) (protectedExtensions cfg) (protectedPatterns cfg)
              inval (part_at ms pos) g"
proof -
  let ?P = "\<lambda>e. live_read h (inferWorktreeRoot ms) (protectedExtensions cfg)
                    (protectedPatterns cfg) inval (snd e) g"
  let ?xs = "filter ?P (window_parts ms)"
  have eq: "lastReadByFile (cleanup_pass1 h ms cfg inval) g
              = (case ?xs of [] \<Rightarrow> None | x # xs \<Rightarrow> Some (fst (last (x # xs))))"
    unfolding cleanup_pass1_def fold_pass1_lastRead by (simp add: pass1_init_def split: list.split)
  from assms eq have ne: "?xs \<noteq> []" and pos: "pos = fst (last ?xs)"
    by (auto split: list.splits)
  from ne have "last ?xs \<in> set ?xs" by (rule last_in_set)
  then have mem: "last ?xs \<in> set (window_parts ms)" and lr: "?P (last ?xs)" by auto
  from mem have "(pos, snd (last ?xs)) \<in> set (window_parts ms)" by (simp add: pos)
  then have "valid_pos ms pos \<and> snd (last ?xs) = part_at ms pos"
    by (simp only: in_window_parts)
  with lr show ?thesis by simp
qed

lemma cleanup_lastRead_exists:
  assumes "valid_pos ms pos"
    and "live_read h (inferWorktreeRoot ms) (protectedExtensions cfg) (protectedPatterns cfg)
           inval (part_at ms pos) g"
  shows "\<exists>pos'. lastReadByFile (cleanup_pass1 h ms cfg inval) g = Some pos'"
proof -
  let ?P = "\<lambda>e. live_read h (inferWorktreeRoot ms) (protectedExtensions cfg)
                    (protectedPatterns cfg) inval (snd e) g"
  let ?xs = "filter ?P (window_parts ms)"
  have eq: "lastReadByFile (cleanup_pass1 h ms cfg inval) g
              = (case ?xs of [] \<Rightarrow> None | x # xs \<Rightarrow> Some (fst (last (x # xs))))"
    unfolding cleanup_pass1_def fold_pass1_lastRead by (simp add: pass1_init_def split: list.split)
  have "(pos, part_at ms pos) \<in> set (window_parts ms)"
    using assms(1) by (simp add: in_window_parts)
  with assms(2) have "?xs \<noteq> []"
    unfolding filter_empty_conv by force
  with eq show ?thesis by (auto split: list.splits)
qed

lemma live_read_functional:
  "live_read h root exts pats inval p f \<Longrightarrow> live_read h root exts pats inval p g \<Longrightarrow> f = g"
  by (simp add: live_read_def tracked_def file_op_of_def)

lemma cleanup_pass2_shape:
  "length (window (cleanup_pass2 ms inval s1)) = length ms"
  "role (window (cleanup_pass2 ms inval s1) ! i) = role (ms ! i)"
  "path_root (window (cleanup_pass2 ms inval s1) ! i) = path_root (ms ! i)"
  "length (parts (window (cleanup_pass2 ms inval s1) ! i)) = length (parts (ms ! i))"
  by (simp_all add: cleanup_pass2_def fold_pass2_shape)

lemma cleanup_pass2_valid_pos [simp]:
  "valid_pos (window (cleanup_pass2 ms inval s1)) pos = valid_pos ms pos"
  by (simp add: valid_pos_def cleanup_pass2_shape)

lemma cleanup_lastRead_mem:
  assumes "lastReadByFile (cleanup_pass1 h ms cfg inval) g = Some pos"
  shows "g \<in> set (filesWithRead (cleanup_pass1 h ms cfg inval))" and "g \<notin> inval"
proof -
  note lr = cleanup_lastRead_Some [OF assms]
  have "valid_pos ms pos
        \<and> tracked h (inferWorktreeRoot ms) (protectedExtensions cfg) (protectedPatterns cfg)
             (part_at ms pos) g
        \<and> tool (part_at ms pos) = ''read''"
    using lr by (simp add: live_read_def)
  then show "g \<in> set (filesWithRead (cleanup_pass1 h ms cfg inval))"
    unfolding cleanup_read by (rule exI)
  show "g \<notin> inval" using lr by (simp add: live_read_def)
qed

lemma cleanup_keeper:
  assumes "lastReadByFile (cleanup_pass1 h ms cfg inval) g = Some pos"
  shows "part_at (window (cleanup_pass2 ms inval (cleanup_pass1 h ms cfg inval))) pos
           = rewrite_keeper (part_at ms pos)
               (normalizedOutput (cleanup_pass1 h ms cfg inval) g (part_at ms pos)) g"
proof -
  let ?s1 = "cleanup_pass1 h ms cfg inval"
  note lr = cleanup_lastRead_Some [OF assms]
  note g_in = cleanup_lastRead_mem(1) [OF assms]
  note g_live = cleanup_lastRead_mem(2) [OF assms]
  have uniq: "\<forall>g' \<in> set (filesWithRead ?s1). g' \<noteq> g \<longrightarrow> lastReadByFile ?s1 g' \<noteq> Some pos"
  proof (intro ballI impI notI)
    fix g' assume "g' \<noteq> g" and "lastReadByFile ?s1 g' = Some pos"
    then show False
      using cleanup_lastRead_Some [of h ms cfg inval g' pos] lr live_read_functional by blast
  qed
  show ?thesis
    unfolding cleanup_pass2_def
    using fold_pass2_part_keeper
      [OF cleanup_read_distinct g_in g_live assms _ uniq,
       of "\<lparr>window = ms, delta2 = emptyDelta, keepCallIDs = {}, filesToConsolidate = {}\<rparr>"]
      lr
    by simp
qed

lemma cleanup_non_keeper:
  assumes "\<forall>g. lastReadByFile (cleanup_pass1 h ms cfg inval) g \<noteq> Some pos"
  shows "part_at (window (cleanup_pass2 ms inval (cleanup_pass1 h ms cfg inval))) pos
           = part_at ms pos"
  unfolding cleanup_pass2_def
  using fold_pass2_part_other
    [of "filesWithRead (cleanup_pass1 h ms cfg inval)" inval "cleanup_pass1 h ms cfg inval" pos
        "\<lparr>window = ms, delta2 = emptyDelta, keepCallIDs = {}, filesToConsolidate = {}\<rparr>"]
    assms
  by simp

lemma cleanup_keepCallIDs:
  "c \<in> keepCallIDs (cleanup_pass2 ms inval (cleanup_pass1 h ms cfg inval))
     \<longleftrightarrow> (\<exists>g pos. lastReadByFile (cleanup_pass1 h ms cfg inval) g = Some pos
                  \<and> c = callID_or_empty (part_at ms pos))"
proof -
  let ?s1 = "cleanup_pass1 h ms cfg inval"
  have mem: "\<And>g pos. lastReadByFile ?s1 g = Some pos
                \<Longrightarrow> g \<in> set (filesWithRead ?s1) \<and> g \<notin> inval"
    using cleanup_lastRead_mem [of h ms cfg inval] by blast
  show ?thesis
    unfolding cleanup_pass2_def fold_pass2_keepCallIDs
    using mem by auto
qed

lemma cleanup_filesToConsolidate:
  "f \<in> filesToConsolidate (cleanup_pass2 ms inval (cleanup_pass1 h ms cfg inval))
     \<longleftrightarrow> lastReadByFile (cleanup_pass1 h ms cfg inval) f \<noteq> None"
proof -
  let ?s1 = "cleanup_pass1 h ms cfg inval"
  have mem: "\<And>g pos. lastReadByFile ?s1 g = Some pos
                \<Longrightarrow> g \<in> set (filesWithRead ?s1) \<and> g \<notin> inval"
    using cleanup_lastRead_mem [of h ms cfg inval] by blast
  show ?thesis
    unfolding cleanup_pass2_def fold_pass2_filesToConsolidate
    using mem by auto
qed

lemma cleanup_window:
  "fst (cleanupMessagesForContextJar h ms cfg inval)
     = (if filesWithHistory (cleanup_pass1 h ms cfg inval) = [] then ms
        else map (\<lambda>m. m\<lparr>parts :=
                    filter (pass3_keeps h (inferWorktreeRoot ms) (protectedExtensions cfg)
                              (protectedPatterns cfg) inval (cleanup_pass1 h ms cfg inval)
                              (cleanup_pass2 ms inval (cleanup_pass1 h ms cfg inval)))
                           (parts m)\<rparr>)
                 (window (cleanup_pass2 ms inval (cleanup_pass1 h ms cfg inval))))"
  by (simp add: cleanupMessagesForContextJar_def Let_def fold_pass3_message_fst)

lemma filter_frame_subseq:
  assumes "length ys = length xs"
    and "\<And>j. j < length xs \<Longrightarrow> P (xs ! j) \<Longrightarrow> ys ! j = xs ! j \<and> K (ys ! j)"
  shows "subseq (filter P xs) (filter K ys)"
  using assms
proof (induction xs ys rule: list_induct2')
  case (4 x xs y ys)
  have hd: "P x \<Longrightarrow> y = x \<and> K y" using "4.prems"(2) [of 0] by auto
  have tl: "subseq (filter P xs) (filter K ys)"
  proof (rule "4.IH")
    show "length ys = length xs" using "4.prems"(1) by simp
    fix j assume "j < length xs" "P (xs ! j)"
    then show "ys ! j = xs ! j \<and> K (ys ! j)" using "4.prems"(2) [of "Suc j"] by auto
  qed
  show ?case
  proof (cases "P x")
    case True
    then have "y = x" and "K y" using hd by blast+
    then show ?thesis using True tl by simp
  next
    case False
    with tl show ?thesis by (auto intro: list_emb_Cons)
  qed
qed simp_all

lemma filter_frame_eq:
  assumes "length ys = length xs"
    and "\<And>j. j < length xs \<Longrightarrow> P (xs ! j) \<Longrightarrow> ys ! j = xs ! j \<and> K (ys ! j)"
    and "\<And>j. j < length xs \<Longrightarrow> \<not> P (xs ! j) \<Longrightarrow> \<not> P (ys ! j)"
  shows "filter P (filter K ys) = filter P xs"
  using assms
proof (induction xs ys rule: list_induct2')
  case (4 x xs y ys)
  have hd: "P x \<Longrightarrow> y = x \<and> K y" "\<not> P x \<Longrightarrow> \<not> P y"
    using "4.prems"(2) [of 0] "4.prems"(3) [of 0] by auto
  have tl: "filter P (filter K ys) = filter P xs"
  proof (rule "4.IH")
    show "length ys = length xs" using "4.prems"(1) by simp
  next
    fix j assume "j < length xs" "P (xs ! j)"
    then show "ys ! j = xs ! j \<and> K (ys ! j)" using "4.prems"(2) [of "Suc j"] by auto
  next
    fix j assume "j < length xs" "\<not> P (xs ! j)"
    then show "\<not> P (ys ! j)" using "4.prems"(3) [of "Suc j"] by auto
  qed
  show ?case
  proof (cases "P x")
    case True
    then have "y = x" and "K y" using hd by blast+
    then show ?thesis using True tl by simp
  next
    case False
    then have "\<not> P y" using hd by blast
    then show ?thesis using False tl by simp
  qed
qed simp_all

lemma file_op_of_functional:
  "file_op_of h root p f \<Longrightarrow> file_op_of h root p g \<Longrightarrow> f = g"
  by (simp add: file_op_of_def)

lemma outside_scope_iff: "outside_scope h root p \<longleftrightarrow> (\<forall>f. \<not> file_op_of h root p f)"
  by (auto simp: outside_scope_def file_op_of_def completed_is_tool)

lemma normalizeFilePath_Some: "f \<noteq> [] \<Longrightarrow> \<exists>k. normalizeFilePath h (Some f) root = Some k"
  by (auto simp: normalizeFilePath_def Let_def split: option.splits list.splits)

lemma extract_rewrite_keeper:
  "isCompletedToolPart p
   \<Longrightarrow> extractPrimaryFilePath h (rewrite_keeper p out f) root = normalizeFilePath h (Some f) root"
  by (auto simp: isCompletedToolPart_def rewrite_keeper_def removeCompactedMarker_def
        extractPrimaryFilePath_def str_field_def update_conv'
        split: Part.splits ToolState.splits)

lemma rewrite_keeper_in_scope:
  assumes "file_op_of h root p g"
  shows "\<not> outside_scope h root (rewrite_keeper p out g)"
proof -
  have g: "g \<noteq> []" using assms by (auto simp: file_op_of_def dest: extract_nonempty)
  from normalizeFilePath_Some [OF g] obtain k where "normalizeFilePath h (Some g) root = Some k"
    by blast
  then show ?thesis
    using assms by (simp add: outside_scope_def file_op_of_def extract_rewrite_keeper completed_is_tool)
qed

text \<open>Every part of the window after pass 2 is the original part or a rewritten kept read.\<close>

lemma cleanup_w2_cases:
  "part_at (window (cleanup_pass2 ms inval (cleanup_pass1 h ms cfg inval))) pos = part_at ms pos
   \<or> (\<exists>g. lastReadByFile (cleanup_pass1 h ms cfg inval) g = Some pos
          \<and> valid_pos ms pos
          \<and> live_read h (inferWorktreeRoot ms) (protectedExtensions cfg) (protectedPatterns cfg)
               inval (part_at ms pos) g
          \<and> part_at (window (cleanup_pass2 ms inval (cleanup_pass1 h ms cfg inval))) pos
              = rewrite_keeper (part_at ms pos)
                  (normalizedOutput (cleanup_pass1 h ms cfg inval) g (part_at ms pos)) g)"
proof (cases "\<exists>g. lastReadByFile (cleanup_pass1 h ms cfg inval) g = Some pos")
  case True
  then obtain g where g: "lastReadByFile (cleanup_pass1 h ms cfg inval) g = Some pos" by blast
  show ?thesis
    using cleanup_keeper [OF g] cleanup_lastRead_Some [OF g] g by blast
next
  case False
  then show ?thesis using cleanup_non_keeper [of h ms cfg inval pos] by simp
qed

lemma pass3_keeps_outside:
  "outside_scope h root p \<Longrightarrow> pass3_keeps h root exts pats inval s1 s2 p"
  by (auto simp: pass3_keeps_def outside_scope_def dest: completed_is_tool)

lemma pass3_keeps_protected:
  "protected_part h root cfg p
   \<Longrightarrow> pass3_keeps h root (protectedExtensions cfg) (protectedPatterns cfg) inval s1 s2 p"
  by (auto simp: pass3_keeps_def protected_part_def split: option.splits)

lemma cleanup_length [simp]: "length (fst (cleanupMessagesForContextJar h ms cfg inval)) = length ms"
  by (simp add: cleanup_window cleanup_pass2_shape)

lemma cleanup_nth:
  assumes "i < length ms"
  shows "role (fst (cleanupMessagesForContextJar h ms cfg inval) ! i) = role (ms ! i)"
    and "path_root (fst (cleanupMessagesForContextJar h ms cfg inval) ! i) = path_root (ms ! i)"
    and "parts (fst (cleanupMessagesForContextJar h ms cfg inval) ! i)
           = (if filesWithHistory (cleanup_pass1 h ms cfg inval) = [] then parts (ms ! i)
              else filter (pass3_keeps h (inferWorktreeRoot ms) (protectedExtensions cfg)
                              (protectedPatterns cfg) inval (cleanup_pass1 h ms cfg inval)
                              (cleanup_pass2 ms inval (cleanup_pass1 h ms cfg inval)))
                     (parts (window (cleanup_pass2 ms inval (cleanup_pass1 h ms cfg inval)) ! i)))"
  using assms by (simp_all add: cleanup_window cleanup_pass2_shape)

lemma cleanup_frame_outside_nth:
  assumes "i < length ms"
  shows "filter (outside_scope h (inferWorktreeRoot ms))
           (parts (fst (cleanupMessagesForContextJar h ms cfg inval) ! i))
         = filter (outside_scope h (inferWorktreeRoot ms)) (parts (ms ! i))"
proof (cases "filesWithHistory (cleanup_pass1 h ms cfg inval) = []")
  case True
  then show ?thesis using assms by (simp add: cleanup_nth)
next
  case False
  let ?s1 = "cleanup_pass1 h ms cfg inval"
  let ?w2 = "window (cleanup_pass2 ms inval ?s1)"
  let ?root = "inferWorktreeRoot ms"
  let ?K = "pass3_keeps h ?root (protectedExtensions cfg) (protectedPatterns cfg) inval ?s1
              (cleanup_pass2 ms inval ?s1)"
  have "filter (outside_scope h ?root) (filter ?K (parts (?w2 ! i)))
          = filter (outside_scope h ?root) (parts (ms ! i))"
  proof (rule filter_frame_eq)
    show "length (parts (?w2 ! i)) = length (parts (ms ! i))" by (simp add: cleanup_pass2_shape)
  next
    fix j assume j: "j < length (parts (ms ! i))" and o: "outside_scope h ?root (parts (ms ! i) ! j)"
    have "part_at ?w2 (i, j) = part_at ms (i, j)"
      using cleanup_w2_cases [of ms inval h cfg "(i, j)"] o
      by (auto simp: outside_scope_iff live_read_def tracked_def part_at_def)
    then have eq: "parts (?w2 ! i) ! j = parts (ms ! i) ! j" by (simp add: part_at_def)
    with o show "parts (?w2 ! i) ! j = parts (ms ! i) ! j \<and> ?K (parts (?w2 ! i) ! j)"
      by (simp add: pass3_keeps_outside)
  next
    fix j assume j: "j < length (parts (ms ! i))" and o: "\<not> outside_scope h ?root (parts (ms ! i) ! j)"
    show "\<not> outside_scope h ?root (parts (?w2 ! i) ! j)"
      using cleanup_w2_cases [of ms inval h cfg "(i, j)"] o
      by (auto simp: part_at_def live_read_def tracked_def rewrite_keeper_in_scope)
  qed
  then show ?thesis using assms False by (simp add: cleanup_nth)
qed

lemma protected_not_live:
  "protected_part h root cfg p
   \<Longrightarrow> \<not> live_read h root (protectedExtensions cfg) (protectedPatterns cfg) inval p g"
  by (auto simp: protected_part_def live_read_def tracked_def file_op_of_def)

lemma cleanup_frame_protected_nth:
  assumes "i < length ms"
  shows "subseq (filter (protected_part h (inferWorktreeRoot ms) cfg) (parts (ms ! i)))
           (parts (fst (cleanupMessagesForContextJar h ms cfg inval) ! i))"
proof (cases "filesWithHistory (cleanup_pass1 h ms cfg inval) = []")
  case True
  then show ?thesis using assms by (simp add: cleanup_nth)
next
  case False
  let ?s1 = "cleanup_pass1 h ms cfg inval"
  let ?w2 = "window (cleanup_pass2 ms inval ?s1)"
  let ?root = "inferWorktreeRoot ms"
  let ?K = "pass3_keeps h ?root (protectedExtensions cfg) (protectedPatterns cfg) inval ?s1
              (cleanup_pass2 ms inval ?s1)"
  have "subseq (filter (protected_part h ?root cfg) (parts (ms ! i))) (filter ?K (parts (?w2 ! i)))"
  proof (rule filter_frame_subseq)
    show "length (parts (?w2 ! i)) = length (parts (ms ! i))" by (simp add: cleanup_pass2_shape)
  next
    fix j assume j: "j < length (parts (ms ! i))"
      and o: "protected_part h ?root cfg (parts (ms ! i) ! j)"
    have "part_at ?w2 (i, j) = part_at ms (i, j)"
      using cleanup_w2_cases [of ms inval h cfg "(i, j)"] o protected_not_live [OF o]
      by (auto simp: part_at_def)
    then have eq: "parts (?w2 ! i) ! j = parts (ms ! i) ! j" by (simp add: part_at_def)
    with o show "parts (?w2 ! i) ! j = parts (ms ! i) ! j \<and> ?K (parts (?w2 ! i) ! j)"
      by (simp add: pass3_keeps_protected)
  qed
  then show ?thesis using assms False by (simp add: cleanup_nth)
qed

lemma touches_iff: "touches h root exts pats p f \<Longrightarrow> touches h root exts pats p g \<longleftrightarrow> g = f"
  by (auto simp: touches_def)

lemma gather_step_untouched:
  "\<forall>f. \<not> touches h root exts pats p f \<Longrightarrow> gather_step h root exts pats inval p s = s"
  by (auto simp: gather_step_def touches_def Let_def split: option.splits)

lemma gather_step_touched:
  assumes "touches h root exts pats p f"
  shows "allTouchedFiles (gather_step h root exts pats inval p s) = set_add f (allTouchedFiles s)"
    and "editedFiles (gather_step h root exts pats inval p s)
           = (if edits_file h root exts pats inval p f then set_add f (editedFiles s)
              else editedFiles s)"
    and "edits_file h root exts pats inval p f
         \<Longrightarrow> final_latestByFile (gather_step h root exts pats inval p s) f \<noteq> None"
    and "final_latestByFile s g \<noteq> None
         \<Longrightarrow> final_latestByFile (gather_step h root exts pats inval p s) g \<noteq> None"
proof -
  have a: "is_tool p" "isCompletedToolPart p"
    "extractPrimaryFilePath h p root = Some f" "f \<noteq> []" "\<not> isFileProtected f exts pats"
    using assms by (auto simp: touches_def completed_is_tool dest: extract_nonempty)
  have ef: "edits_file h root exts pats inval p f
              = (f \<notin> inval
                 \<and> (((tool p = ''edit'' \<or> tool p = ''multiedit'')
                       \<and> extractAfterFromEditMetadata (metadata (state p)) \<noteq> None)
                      \<or> (tool p = ''write'' \<and> str_field (input (state p)) ''content'' \<noteq> None)))"
    by (simp add: edits_file_def assms)
  show "allTouchedFiles (gather_step h root exts pats inval p s) = set_add f (allTouchedFiles s)"
    by (simp add: gather_step_def a Let_def split: option.split)
  show "editedFiles (gather_step h root exts pats inval p s)
           = (if edits_file h root exts pats inval p f then set_add f (editedFiles s)
              else editedFiles s)"
    unfolding ef by (simp add: gather_step_def a Let_def split: option.split)
  show "edits_file h root exts pats inval p f
         \<Longrightarrow> final_latestByFile (gather_step h root exts pats inval p s) f \<noteq> None"
    unfolding ef by (auto simp: gather_step_def a Let_def)
  show "final_latestByFile s g \<noteq> None
         \<Longrightarrow> final_latestByFile (gather_step h root exts pats inval p s) g \<noteq> None"
    by (auto simp: gather_step_def a Let_def split: option.split)
qed

lemma edits_file_iff:
  "touches h root exts pats p f
   \<Longrightarrow> edits_file h root exts pats inval p g \<longleftrightarrow> g = f \<and> edits_file h root exts pats inval p f"
  by (auto simp: edits_file_def touches_def)

lemma gather_step_touchedFiles:
  "g \<in> set (allTouchedFiles (gather_step h root exts pats inval p s))
     \<longleftrightarrow> g \<in> set (allTouchedFiles s) \<or> touches h root exts pats p g"
proof (cases "\<exists>f. touches h root exts pats p f")
  case True
  then obtain f where f: "touches h root exts pats p f" by blast
  show ?thesis by (auto simp: gather_step_touched(1) [OF f] touches_iff [OF f])
next
  case False
  then show ?thesis by (simp add: gather_step_untouched)
qed

lemma gather_step_editedFiles:
  "g \<in> set (editedFiles (gather_step h root exts pats inval p s))
     \<longleftrightarrow> g \<in> set (editedFiles s) \<or> edits_file h root exts pats inval p g"
proof (cases "\<exists>f. touches h root exts pats p f")
  case True
  then obtain f where f: "touches h root exts pats p f" by blast
  show ?thesis
    using edits_file_iff [OF f, of inval g]
    by (auto simp: gather_step_touched(2) [OF f])
next
  case False
  then show ?thesis by (simp add: gather_step_untouched edits_file_def)
qed



lemma fold_gather_touchedFiles:
  "g \<in> set (allTouchedFiles (fold (gather_step h root exts pats inval) ps s))
     \<longleftrightarrow> g \<in> set (allTouchedFiles s) \<or> (\<exists>p \<in> set ps. touches h root exts pats p g)"
  by (induction ps arbitrary: s) (auto simp: gather_step_touchedFiles)

lemma fold_gather_editedFiles:
  "g \<in> set (editedFiles (fold (gather_step h root exts pats inval) ps s))
     \<longleftrightarrow> g \<in> set (editedFiles s) \<or> (\<exists>p \<in> set ps. edits_file h root exts pats inval p g)"
  by (induction ps arbitrary: s) (auto simp: gather_step_editedFiles)



lemma finalize_touched:
  "g \<in> set (allTouchedFiles (finalize_gather h ms cfg inval))
     \<longleftrightarrow> (\<exists>p \<in> set (all_parts ms).
            touches h (inferWorktreeRoot ms) (protectedExtensions cfg) (protectedPatterns cfg) p g)"
  by (simp add: finalize_gather_def fold_gather_touchedFiles gather_init_def all_parts_def)

lemma finalize_edited:
  "g \<in> set (editedFiles (finalize_gather h ms cfg inval))
     \<longleftrightarrow> (\<exists>p \<in> set (all_parts ms).
            edits_file h (inferWorktreeRoot ms) (protectedExtensions cfg) (protectedPatterns cfg)
              inval p g)"
  by (simp add: finalize_gather_def fold_gather_editedFiles gather_init_def all_parts_def)



lemma fold_wipe_part_fst:
  "fst (fold (wipe_part h root exts pats inval g) ps (acc, d))
     = acc @ filter (wipe_keeps h root exts pats inval g) ps"
proof (induction ps arbitrary: acc d)
  case Nil
  then show ?case by simp
next
  case (Cons p ps)
  obtain acc' d' where st: "wipe_part h root exts pats inval g p (acc, d) = (acc', d')"
    by (cases "wipe_part h root exts pats inval g p (acc, d)")
  have "acc' = (if wipe_keeps h root exts pats inval g p then acc @ [p] else acc)"
    using wipe_part_fst [of h root exts pats inval g p acc d] st by simp
  then show ?case using Cons.IH [of acc' d'] st by simp
qed

lemma fold_wipe_message_fst:
  "fst (fold (wipe_message h root exts pats inval g) ms (acc, d))
     = acc @ map (\<lambda>m. m\<lparr>parts := filter (wipe_keeps h root exts pats inval g) (parts m)\<rparr>) ms"
proof (induction ms arbitrary: acc d)
  case Nil
  then show ?case by simp
next
  case (Cons m ms)
  obtain np d' where st:
    "fold (wipe_part h root exts pats inval g) (parts m) ([], d) = (np, d')"
    by (cases "fold (wipe_part h root exts pats inval g) (parts m) ([], d)")
  have np: "np = filter (wipe_keeps h root exts pats inval g) (parts m)"
    using fold_wipe_part_fst [of h root exts pats inval g "parts m" "[]" d] st by simp
  have "wipe_message h root exts pats inval g m (acc, d) = (acc @ [m\<lparr>parts := np\<rparr>], d')"
    by (simp add: wipe_message_def st)
  then show ?case using Cons.IH [of "acc @ [m\<lparr>parts := np\<rparr>]" d'] np by simp
qed

lemma attach_step_fst:
  "fst (attach_step h now root g t f (ms, d))
     = ms[t := (ms ! t)\<lparr>parts := parts (ms ! t) @ synthetic_reads h now root g [f]\<rparr>]"
  by (cases "t < length ms")
     (auto simp: attach_step_def synthetic_reads_def Let_def list_update_beyond
        split: option.splits)

lemma fold_attach_fst:
  "t < length ms
   \<Longrightarrow> fst (fold (attach_step h now root g t) fs (ms, d))
        = ms[t := (ms ! t)\<lparr>parts := parts (ms ! t) @ synthetic_reads h now root g fs\<rparr>]"
proof (induction fs arbitrary: ms d)
  case Nil
  then show ?case by (simp add: synthetic_reads_def)
next
  case (Cons f fs)
  obtain ms' d' where st: "attach_step h now root g t f (ms, d) = (ms', d')"
    by (cases "attach_step h now root g t f (ms, d)")
  have ms': "ms' = ms[t := (ms ! t)\<lparr>parts := parts (ms ! t) @ synthetic_reads h now root g [f]\<rparr>]"
    using attach_step_fst [of h now root g t f ms d] st by simp
  have len: "t < length ms'" using Cons.prems ms' by simp
  show ?case
    using Cons.IH [OF len, of d'] Cons.prems st
    by (simp add: ms' synthetic_reads_def)
qed

lemma findLastAssistant_from_Some:
  "findLastAssistant_from ms n = Some t \<Longrightarrow> t < n \<and> role (ms ! t) = ''assistant''"
  by (induction n) (auto split: if_splits)

lemma findLastAssistant_from_None:
  "findLastAssistant_from ms n = None \<longleftrightarrow> (\<forall>i < n. role (ms ! i) \<noteq> ''assistant'')"
  by (induction n) (auto simp: less_Suc_eq)

lemma findLastAssistant_from_cong:
  "\<forall>i < n. role (ms' ! i) = role (ms ! i)
   \<Longrightarrow> findLastAssistant_from ms' n = findLastAssistant_from ms n"
  by (induction n) auto

lemma findLastAssistant_Some:
  "findLastAssistant ms = Some t \<Longrightarrow> t < length ms \<and> role (ms ! t) = ''assistant''"
  by (simp add: findLastAssistant_def findLastAssistant_from_Some)

lemma findLastAssistant_None:
  "findLastAssistant ms = None \<longleftrightarrow> (\<forall>m \<in> set ms. role m \<noteq> ''assistant'')"
  unfolding findLastAssistant_def findLastAssistant_from_None
  by (metis in_set_conv_nth)

lemma findLastAssistant_cong:
  "map role ms' = map role ms \<Longrightarrow> findLastAssistant ms' = findLastAssistant ms"
proof -
  assume a: "map role ms' = map role ms"
  then have len: "length ms' = length ms" by (metis length_map)
  have "\<forall>i < length ms. role (ms' ! i) = role (ms ! i)"
    using a len by (metis nth_map)
  then show ?thesis
    by (simp add: findLastAssistant_def len findLastAssistant_from_cong)
qed

lemma finalize_window:
  "fst (finalizeEditedFilesForNextStep h now ms cfg inval)
     = (let g = finalize_gather h ms cfg inval;
            root = inferWorktreeRoot ms;
            wiped = map (\<lambda>m. m\<lparr>parts := filter (wipe_keeps h root (protectedExtensions cfg)
                                            (protectedPatterns cfg) inval g) (parts m)\<rparr>) ms
        in if editedFiles g = [] \<and> (\<forall>f \<in> set (allTouchedFiles g). f \<notin> inval) then ms
           else case findLastAssistant ms of
                  None \<Rightarrow> wiped
                | Some t \<Rightarrow> wiped[t := (wiped ! t)\<lparr>parts := parts (wiped ! t)
                                           @ synthetic_reads h now root g (editedFiles g)\<rparr>])"
proof -
  let ?g = "finalize_gather h ms cfg inval"
  let ?root = "inferWorktreeRoot ms"
  let ?wiped = "map (\<lambda>m. m\<lparr>parts := filter (wipe_keeps h ?root (protectedExtensions cfg)
                                            (protectedPatterns cfg) inval ?g) (parts m)\<rparr>) ms"
  let ?d = "emptyDelta\<lparr>filesInvalidated :=
              int (length (filter (\<lambda>filePath. filePath \<in> inval) (allTouchedFiles ?g)))\<rparr>"
  obtain w d' where st:
    "fold (wipe_message h ?root (protectedExtensions cfg) (protectedPatterns cfg) inval ?g) ms ([], ?d)
       = (w, d')"
    by (cases "fold (wipe_message h ?root (protectedExtensions cfg) (protectedPatterns cfg) inval ?g)
                 ms ([], ?d)")
  have w: "w = ?wiped"
    using fold_wipe_message_fst
      [of h ?root "protectedExtensions cfg" "protectedPatterns cfg" inval ?g ms "[]" ?d] st
    by simp
  have fla: "findLastAssistant w = findLastAssistant ms"
    by (rule findLastAssistant_cong) (simp add: w comp_def)
  have zero: "(filesInvalidated ?d = 0) = (\<forall>f \<in> set (allTouchedFiles ?g). f \<notin> inval)"
    by (simp add: filter_empty_conv)
  have att: "\<And>t. findLastAssistant ms = Some t
                \<Longrightarrow> fst (fold (attach_step h now ?root ?g t) (editedFiles ?g) (w, d'))
                    = w[t := (w ! t)\<lparr>parts := parts (w ! t)
                                @ synthetic_reads h now ?root ?g (editedFiles ?g)\<rparr>]"
  proof -
    fix t assume "findLastAssistant ms = Some t"
    then have "t < length w" using findLastAssistant_Some [of ms t] by (simp add: w)
    then show "fst (fold (attach_step h now ?root ?g t) (editedFiles ?g) (w, d'))
                    = w[t := (w ! t)\<lparr>parts := parts (w ! t)
                                @ synthetic_reads h now ?root ?g (editedFiles ?g)\<rparr>]"
      by (rule fold_attach_fst)
  qed
  show ?thesis
    unfolding finalizeEditedFilesForNextStep_def Let_def zero st
    using att by (simp add: fla w [symmetric] split: option.split)
qed

lemma finalize_length [simp]:
  "length (fst (finalizeEditedFilesForNextStep h now ms cfg inval)) = length ms"
  by (simp add: finalize_window Let_def split: option.split)

text \<open>Whether the finalization returns early, leaving the window as it is.\<close>

lemma finalize_nth:
  assumes "i < length ms"
  shows "role (fst (finalizeEditedFilesForNextStep h now ms cfg inval) ! i) = role (ms ! i)"
    and "path_root (fst (finalizeEditedFilesForNextStep h now ms cfg inval) ! i) = path_root (ms ! i)"
    and "parts (fst (finalizeEditedFilesForNextStep h now ms cfg inval) ! i)
           = (if editedFiles (finalize_gather h ms cfg inval) = []
                 \<and> (\<forall>f \<in> set (allTouchedFiles (finalize_gather h ms cfg inval)). f \<notin> inval)
              then parts (ms ! i)
              else filter (wipe_keeps h (inferWorktreeRoot ms) (protectedExtensions cfg)
                             (protectedPatterns cfg) inval (finalize_gather h ms cfg inval))
                     (parts (ms ! i))
                   @ (if findLastAssistant ms = Some i
                      then synthetic_reads h now (inferWorktreeRoot ms)
                             (finalize_gather h ms cfg inval)
                             (editedFiles (finalize_gather h ms cfg inval))
                      else []))"
proof -
  have t: "\<And>t. findLastAssistant ms = Some t \<Longrightarrow> t < length ms"
    using findLastAssistant_Some by blast
  show "role (fst (finalizeEditedFilesForNextStep h now ms cfg inval) ! i) = role (ms ! i)"
    using assms t by (auto simp: finalize_window Let_def nth_list_update split: option.split)
  show "path_root (fst (finalizeEditedFilesForNextStep h now ms cfg inval) ! i) = path_root (ms ! i)"
    using assms t by (auto simp: finalize_window Let_def nth_list_update split: option.split)
  show "parts (fst (finalizeEditedFilesForNextStep h now ms cfg inval) ! i)
           = (if editedFiles (finalize_gather h ms cfg inval) = []
                 \<and> (\<forall>f \<in> set (allTouchedFiles (finalize_gather h ms cfg inval)). f \<notin> inval)
              then parts (ms ! i)
              else filter (wipe_keeps h (inferWorktreeRoot ms) (protectedExtensions cfg)
                             (protectedPatterns cfg) inval (finalize_gather h ms cfg inval))
                     (parts (ms ! i))
                   @ (if findLastAssistant ms = Some i
                      then synthetic_reads h now (inferWorktreeRoot ms)
                             (finalize_gather h ms cfg inval)
                             (editedFiles (finalize_gather h ms cfg inval))
                      else []))"
    using assms t by (auto simp: finalize_window Let_def nth_list_update split: option.split)
qed

lemma wipe_keeps_outside:
  "outside_scope h root p \<Longrightarrow> wipe_keeps h root exts pats inval g p"
  by (auto simp: wipe_keeps_def outside_scope_def dest: completed_is_tool)

lemma wipe_keeps_protected:
  "protected_part h root cfg p
   \<Longrightarrow> wipe_keeps h root (protectedExtensions cfg) (protectedPatterns cfg) inval g p"
  by (auto simp: wipe_keeps_def protected_part_def split: option.splits)

lemma synthetic_in_scope:
  assumes "f \<noteq> []"
  shows "\<not> outside_scope h root (syntheticReadFor h now root latest f)"
proof -
  from normalizeFilePath_Some [OF assms] obtain k where "normalizeFilePath h (Some f) root = Some k"
    by blast
  then show ?thesis
    by (simp add: outside_scope_def syntheticReadFor_def makeSyntheticReadPart_def Let_def
          is_tool_def isCompletedToolPart_def isFileTool_def extractPrimaryFilePath_def
          str_field_def)
qed

lemma edits_file_nonempty: "edits_file h root exts pats inval p f \<Longrightarrow> f \<noteq> []"
  by (auto simp: edits_file_def touches_def dest: extract_nonempty)

lemma synthetic_reads_in_scope:
  assumes "\<forall>f \<in> set fs. f \<noteq> []"
  shows "filter (outside_scope h root) (synthetic_reads h now root g fs) = []"
  using assms
  by (induction fs) (auto simp: synthetic_reads_def synthetic_in_scope split: option.splits)

lemma finalize_synthetic_in_scope:
  "filter (outside_scope h (inferWorktreeRoot ms))
     (synthetic_reads h now (inferWorktreeRoot ms) (finalize_gather h ms cfg inval)
        (editedFiles (finalize_gather h ms cfg inval))) = []"
  by (rule synthetic_reads_in_scope) (auto simp: finalize_edited dest: edits_file_nonempty)

lemma finalize_frame_outside_nth:
  assumes "i < length ms"
  shows "filter (outside_scope h (inferWorktreeRoot ms))
           (parts (fst (finalizeEditedFilesForNextStep h now ms cfg inval) ! i))
         = filter (outside_scope h (inferWorktreeRoot ms)) (parts (ms ! i))"
proof -
  have "\<And>K xs. (\<And>p. outside_scope h (inferWorktreeRoot ms) p \<Longrightarrow> K p)
          \<Longrightarrow> filter (outside_scope h (inferWorktreeRoot ms)) (filter K xs)
              = filter (outside_scope h (inferWorktreeRoot ms)) xs"
    by (auto intro: filter_cong)
  then show ?thesis
    using assms
    by (simp add: finalize_nth(3) finalize_synthetic_in_scope wipe_keeps_outside)
qed

lemma finalize_frame_protected_nth:
  assumes "i < length ms"
  shows "subseq (filter (protected_part h (inferWorktreeRoot ms) cfg) (parts (ms ! i)))
           (parts (fst (finalizeEditedFilesForNextStep h now ms cfg inval) ! i))"
proof -
  let ?P = "protected_part h (inferWorktreeRoot ms) cfg"
  let ?K = "wipe_keeps h (inferWorktreeRoot ms) (protectedExtensions cfg) (protectedPatterns cfg)
              inval (finalize_gather h ms cfg inval)"
  have "subseq (filter ?P (parts (ms ! i))) (filter ?K (parts (ms ! i)))"
    by (rule filter_frame_subseq) (simp_all add: wipe_keeps_protected)
  then have "\<And>zs. subseq (filter ?P (parts (ms ! i))) (filter ?K (parts (ms ! i)) @ zs)"
    by (rule list_emb_prefix)
  then show ?thesis using assms by (simp add: finalize_nth(3))
qed

lemma edit_snapshot_part_iff:
  "edit_snapshot_part h root cfg inval p
     \<longleftrightarrow> (\<exists>f. edits_file h root (protectedExtensions cfg) (protectedPatterns cfg) inval p f)"
  by (auto simp: edit_snapshot_part_def edits_file_def touches_def split: option.splits)

lemma finalize_no_edits:
  "editedFiles (finalize_gather h ms cfg inval) = []
     \<longleftrightarrow> \<not> list_ex (edit_snapshot_part h (inferWorktreeRoot ms) cfg inval) (all_parts ms)"
proof -
  have "editedFiles (finalize_gather h ms cfg inval) = []
          \<longleftrightarrow> (\<forall>g. g \<notin> set (editedFiles (finalize_gather h ms cfg inval)))"
    by (cases "editedFiles (finalize_gather h ms cfg inval)") auto
  then show ?thesis
    by (auto simp: finalize_edited list_ex_iff edit_snapshot_part_iff)
qed

lemma wipe_keeps_no_edits:
  "editedFiles g = []
   \<Longrightarrow> wipe_keeps h root (protectedExtensions cfg) (protectedPatterns cfg) inval g p
        \<longleftrightarrow> \<not> invalidated_op h root cfg inval p"
  by (auto simp: wipe_keeps_def invalidated_op_def split: option.splits)

lemma invalidated_op_touched:
  "invalidated_op h (inferWorktreeRoot ms) cfg inval p \<Longrightarrow> p \<in> set (all_parts ms)
   \<Longrightarrow> \<exists>f \<in> set (allTouchedFiles (finalize_gather h ms cfg inval)). f \<in> inval"
proof -
  assume a: "invalidated_op h (inferWorktreeRoot ms) cfg inval p" and p: "p \<in> set (all_parts ms)"
  from a obtain f where f: "extractPrimaryFilePath h p (inferWorktreeRoot ms) = Some f"
    "isCompletedToolPart p" "\<not> isFileProtected f (protectedExtensions cfg) (protectedPatterns cfg)"
    "f \<in> inval"
    by (auto simp: invalidated_op_def split: option.splits)
  then have "touches h (inferWorktreeRoot ms) (protectedExtensions cfg) (protectedPatterns cfg) p f"
    by (simp add: touches_def)
  with p have "f \<in> set (allTouchedFiles (finalize_gather h ms cfg inval))"
    unfolding finalize_touched by blast
  with f(4) show ?thesis by blast
qed

lemma in_all_parts_nth: "i < length ms \<Longrightarrow> p \<in> set (parts (ms ! i)) \<Longrightarrow> p \<in> set (all_parts ms)"
  by (auto simp: all_parts_def)

lemma finalize_no_edits_nth:
  assumes "editedFiles (finalize_gather h ms cfg inval) = []" and "i < length ms"
  shows "parts (fst (finalizeEditedFilesForNextStep h now ms cfg inval) ! i)
           = filter (\<lambda>p. \<not> invalidated_op h (inferWorktreeRoot ms) cfg inval p) (parts (ms ! i))"
proof (cases "\<forall>f \<in> set (allTouchedFiles (finalize_gather h ms cfg inval)). f \<notin> inval")
  case True
  have "\<forall>p \<in> set (parts (ms ! i)). \<not> invalidated_op h (inferWorktreeRoot ms) cfg inval p"
    using True invalidated_op_touched [of h ms cfg inval] in_all_parts_nth [OF assms(2)]
    by blast
  then have "filter (\<lambda>p. \<not> invalidated_op h (inferWorktreeRoot ms) cfg inval p) (parts (ms ! i))
               = parts (ms ! i)"
    by (simp add: filter_id_conv)
  then show ?thesis using True assms by (simp add: finalize_nth(3))
next
  case False
  have wk: "filter (wipe_keeps h (inferWorktreeRoot ms) (protectedExtensions cfg)
                      (protectedPatterns cfg) inval (finalize_gather h ms cfg inval))
              (parts (ms ! i))
            = filter (\<lambda>p. \<not> invalidated_op h (inferWorktreeRoot ms) cfg inval p) (parts (ms ! i))"
    by (rule filter_cong) (simp_all add: wipe_keeps_no_edits [OF assms(1)])
  have "parts (fst (finalizeEditedFilesForNextStep h now ms cfg inval) ! i)
          = filter (wipe_keeps h (inferWorktreeRoot ms) (protectedExtensions cfg)
                      (protectedPatterns cfg) inval (finalize_gather h ms cfg inval))
              (parts (ms ! i))"
    using False assms by (auto simp: finalize_nth(3) synthetic_reads_def)
  then show ?thesis by (simp only: wk)
qed

lemma finalize_no_assistant_nth:
  assumes "findLastAssistant ms = None" and "i < length ms"
  shows "subseq (parts (fst (finalizeEditedFilesForNextStep h now ms cfg inval) ! i)) (parts (ms ! i))"
  using assms by (simp add: finalize_nth(3))

lemma messages_eqI:
  assumes "length ms' = length ms"
    and "\<And>i. i < length ms \<Longrightarrow> role (ms' ! i) = role (ms ! i)"
    and "\<And>i. i < length ms \<Longrightarrow> path_root (ms' ! i) = path_root (ms ! i)"
    and "\<And>i. i < length ms \<Longrightarrow> parts (ms' ! i) = parts (ms ! i)"
  shows "ms' = (ms :: ChatMessage list)"
  using assms by (intro nth_equalityI) (simp_all add: ChatMessage.equality)

lemma in_all_parts: "p \<in> set (all_parts ms) \<longleftrightarrow> (\<exists>i < length ms. p \<in> set (parts (ms ! i)))"
proof -
  have "p \<in> set (all_parts ms) \<longleftrightarrow> (\<exists>m \<in> set ms. p \<in> set (parts m))"
    by (auto simp: all_parts_def)
  also have "\<dots> \<longleftrightarrow> (\<exists>i < length ms. p \<in> set (parts (ms ! i)))"
    by (metis in_set_conv_nth)
  finally show ?thesis .
qed

lemma in_all_parts_pos: "p \<in> set (all_parts ms) \<longleftrightarrow> (\<exists>pos. valid_pos ms pos \<and> p = part_at ms pos)"
proof
  assume "p \<in> set (all_parts ms)"
  then obtain i where i: "i < length ms" "p \<in> set (parts (ms ! i))"
    unfolding in_all_parts by blast
  from i(2) obtain j where "j < length (parts (ms ! i))" "p = parts (ms ! i) ! j"
    by (metis in_set_conv_nth)
  with i(1) have "i < length ms" "j < length (parts (ms ! i))" "p = parts (ms ! i) ! j"
    by simp_all
  then have "valid_pos ms (i, j) \<and> p = part_at ms (i, j)"
    by (simp add: valid_pos_def part_at_def)
  then show "\<exists>pos. valid_pos ms pos \<and> p = part_at ms pos" by (rule exI)
next
  assume "\<exists>pos. valid_pos ms pos \<and> p = part_at ms pos"
  then obtain pos where "valid_pos ms pos" "p = part_at ms pos" by blast
  then have "fst pos < length ms \<and> p \<in> set (parts (ms ! fst pos))"
    by (simp add: valid_pos_def part_at_def)
  then show "p \<in> set (all_parts ms)"
    unfolding in_all_parts by blast
qed

text \<open>Where a part of the window after the consolidation comes from.\<close>

lemma cleanup_result_part:
  assumes "p' \<in> set (all_parts (fst (cleanupMessagesForContextJar h ms cfg inval)))"
  shows "(filesWithHistory (cleanup_pass1 h ms cfg inval) = [] \<and> p' \<in> set (all_parts ms))
         \<or> (filesWithHistory (cleanup_pass1 h ms cfg inval) \<noteq> []
             \<and> (\<exists>pos. valid_pos ms pos
                   \<and> p' = part_at (window (cleanup_pass2 ms inval (cleanup_pass1 h ms cfg inval))) pos
                   \<and> pass3_keeps h (inferWorktreeRoot ms) (protectedExtensions cfg)
                        (protectedPatterns cfg) inval (cleanup_pass1 h ms cfg inval)
                        (cleanup_pass2 ms inval (cleanup_pass1 h ms cfg inval)) p'))"
proof (cases "filesWithHistory (cleanup_pass1 h ms cfg inval) = []")
  case True
  then show ?thesis using assms by (simp add: cleanup_window)
next
  case False
  let ?w2 = "window (cleanup_pass2 ms inval (cleanup_pass1 h ms cfg inval))"
  from assms obtain i where i: "i < length ms"
    and p: "p' \<in> set (parts (fst (cleanupMessagesForContextJar h ms cfg inval) ! i))"
    by (auto simp: in_all_parts)
  from p False i have k: "pass3_keeps h (inferWorktreeRoot ms) (protectedExtensions cfg)
                        (protectedPatterns cfg) inval (cleanup_pass1 h ms cfg inval)
                        (cleanup_pass2 ms inval (cleanup_pass1 h ms cfg inval)) p'"
    and m: "p' \<in> set (parts (?w2 ! i))"
    by (simp_all add: cleanup_nth(3))
  from m obtain j where j: "j < length (parts (?w2 ! i))" "p' = parts (?w2 ! i) ! j"
    by (auto simp: in_set_conv_nth)
  then have "valid_pos ms (i, j) \<and> p' = part_at ?w2 (i, j)"
    using i by (simp add: valid_pos_def part_at_def cleanup_pass2_shape)
  with k False show ?thesis by blast
qed

lemma stable_original:
  assumes "list_all (resolves_to_itself h root) (all_parts ms)" and "valid_pos ms pos"
    and "extractPrimaryFilePath h (part_at ms pos) root = Some g"
  shows "normalizeFilePath h (Some g) root = Some g"
proof -
  have "part_at ms pos \<in> set (all_parts ms)"
    unfolding in_all_parts_pos using assms(2) by blast
  then have "resolves_to_itself h root (part_at ms pos)" using assms(1) by (simp add: list_all_iff)
  then show ?thesis using assms(3) by (simp add: resolves_to_itself_def)
qed

lemma cleanup_wipes_invalidated:
  assumes f: "f \<in> inval" "\<not> isFileProtected f (protectedExtensions cfg) (protectedPatterns cfg)"
    and stable: "list_all (resolves_to_itself h (inferWorktreeRoot ms)) (all_parts ms)"
    and p': "p' \<in> set (all_parts (fst (cleanupMessagesForContextJar h ms cfg inval)))"
  shows "\<not> file_op_of h (inferWorktreeRoot ms) p' f"
proof
  let ?root = "inferWorktreeRoot ms"
  let ?s1 = "cleanup_pass1 h ms cfg inval"
  let ?s2 = "cleanup_pass2 ms inval ?s1"
  assume op: "file_op_of h ?root p' f"
  have orig: "\<And>pos. valid_pos ms pos \<Longrightarrow> file_op_of h ?root (part_at ms pos) f
                \<Longrightarrow> f \<in> set (filesWithHistory ?s1)"
    unfolding cleanup_history using f(2) by (auto simp: tracked_def)
  from cleanup_result_part [OF p'] show False
  proof (elim disjE conjE exE)
    assume e: "filesWithHistory ?s1 = []" and "p' \<in> set (all_parts ms)"
    then obtain pos where "valid_pos ms pos" "p' = part_at ms pos"
      unfolding in_all_parts_pos by blast
    with orig op have "f \<in> set (filesWithHistory ?s1)" by simp
    with e show False by simp
  next
    fix pos
    assume v: "valid_pos ms pos" and eq: "p' = part_at (window ?s2) pos"
      and k: "pass3_keeps h ?root (protectedExtensions cfg) (protectedPatterns cfg) inval ?s1 ?s2 p'"
    from cleanup_w2_cases [of ms inval h cfg pos] show False
    proof (elim disjE exE conjE)
      assume "part_at (window ?s2) pos = part_at ms pos"
      then have "f \<in> set (filesWithHistory ?s1)" using orig [OF v] op eq by simp
      then show False using k op f by (simp add: pass3_keeps_def file_op_of_def)
    next
      fix g
      assume lr: "live_read h ?root (protectedExtensions cfg) (protectedPatterns cfg) inval
                    (part_at ms pos) g"
        and rw: "part_at (window ?s2) pos
                   = rewrite_keeper (part_at ms pos) (normalizedOutput ?s1 g (part_at ms pos)) g"
      have g: "extractPrimaryFilePath h (part_at ms pos) ?root = Some g" "g \<notin> inval"
        "isCompletedToolPart (part_at ms pos)"
        using lr by (simp_all add: live_read_def tracked_def file_op_of_def)
      have "extractPrimaryFilePath h p' ?root = Some g"
        using stable_original [OF stable v g(1)] by (simp add: eq rw extract_rewrite_keeper g(3))
      then show False using op f(1) g(2) by (simp add: file_op_of_def)
    qed
  qed
qed


lemma cleanup_result_part_nth:
  assumes "i < length ms"
    and "p' \<in> set (parts (fst (cleanupMessagesForContextJar h ms cfg inval) ! i))"
  shows "p' \<in> set (parts (ms ! i))
         \<or> (\<exists>j g. j < length (parts (ms ! i))
               \<and> live_read h (inferWorktreeRoot ms) (protectedExtensions cfg)
                    (protectedPatterns cfg) inval (parts (ms ! i) ! j) g
               \<and> p' = rewrite_keeper (parts (ms ! i) ! j)
                        (normalizedOutput (cleanup_pass1 h ms cfg inval) g (parts (ms ! i) ! j)) g)"
proof (cases "filesWithHistory (cleanup_pass1 h ms cfg inval) = []")
  case True
  then show ?thesis using assms by (simp add: cleanup_nth(3))
next
  case False
  let ?w2 = "window (cleanup_pass2 ms inval (cleanup_pass1 h ms cfg inval))"
  from assms False have "p' \<in> set (parts (?w2 ! i))" by (simp add: cleanup_nth(3))
  then obtain j where j: "j < length (parts (ms ! i))" "p' = part_at ?w2 (i, j)"
    by (metis in_set_conv_nth cleanup_pass2_shape(4) part_at_def fst_conv snd_conv)
  from cleanup_w2_cases [of ms inval h cfg "(i, j)"] show ?thesis
  proof (elim disjE exE conjE)
    assume "part_at ?w2 (i, j) = part_at ms (i, j)"
    then have "p' \<in> set (parts (ms ! i))" using j by (simp add: part_at_def)
    then show ?thesis by simp
  next
    fix g
    assume "live_read h (inferWorktreeRoot ms) (protectedExtensions cfg) (protectedPatterns cfg)
              inval (part_at ms (i, j)) g"
      and "part_at ?w2 (i, j)
             = rewrite_keeper (part_at ms (i, j))
                 (normalizedOutput (cleanup_pass1 h ms cfg inval) g (part_at ms (i, j))) g"
    then show ?thesis using j by (auto simp: part_at_def)
  qed
qed

lemma cleanup_parts_shrink:
  "i < length ms
   \<Longrightarrow> length (parts (fst (cleanupMessagesForContextJar h ms cfg inval) ! i))
        \<le> length (parts (ms ! i))"
proof -
  assume i: "i < length ms"
  let ?w2 = "window (cleanup_pass2 ms inval (cleanup_pass1 h ms cfg inval))"
  have "length (filter (pass3_keeps h (inferWorktreeRoot ms) (protectedExtensions cfg)
                  (protectedPatterns cfg) inval (cleanup_pass1 h ms cfg inval)
                  (cleanup_pass2 ms inval (cleanup_pass1 h ms cfg inval))) (parts (?w2 ! i)))
          \<le> length (parts (ms ! i))"
    using length_filter_le [of _ "parts (?w2 ! i)"] by (simp add: cleanup_pass2_shape)
  then show ?thesis using i by (simp add: cleanup_nth(3))
qed

lemma cleanup_keeps_unread_file:
  assumes f: "f \<notin> inval"
    and noread: "\<not> list_ex (\<lambda>p. file_op_of h (inferWorktreeRoot ms) p f \<and> tool p = ''read'')
                     (all_parts ms)"
    and i: "i < length ms"
  shows "subseq (filter (\<lambda>p. extractPrimaryFilePath h p (inferWorktreeRoot ms) = Some f) (parts (ms ! i)))
           (parts (fst (cleanupMessagesForContextJar h ms cfg inval) ! i))"
proof (cases "filesWithHistory (cleanup_pass1 h ms cfg inval) = []")
  case True
  then show ?thesis using i by (simp add: cleanup_nth(3))
next
  case False
  let ?root = "inferWorktreeRoot ms"
  let ?s1 = "cleanup_pass1 h ms cfg inval"
  let ?s2 = "cleanup_pass2 ms inval ?s1"
  let ?K = "pass3_keeps h ?root (protectedExtensions cfg) (protectedPatterns cfg) inval ?s1 ?s2"
  have nolive: "\<And>pos. valid_pos ms pos
                  \<Longrightarrow> \<not> live_read h ?root (protectedExtensions cfg) (protectedPatterns cfg) inval
                         (part_at ms pos) f"
  proof
    fix pos assume v: "valid_pos ms pos"
      and "live_read h ?root (protectedExtensions cfg) (protectedPatterns cfg) inval (part_at ms pos) f"
    then have "file_op_of h ?root (part_at ms pos) f \<and> tool (part_at ms pos) = ''read''"
      by (simp add: live_read_def tracked_def)
    moreover have "part_at ms pos \<in> set (all_parts ms)"
      unfolding in_all_parts_pos using v by blast
    ultimately show False using noread by (auto simp: list_ex_iff)
  qed
  have nokeeper: "lastReadByFile ?s1 f = None"
  proof (rule ccontr)
    assume "lastReadByFile ?s1 f \<noteq> None"
    then obtain pos where "lastReadByFile ?s1 f = Some pos" by auto
    from cleanup_lastRead_Some [OF this] nolive show False by blast
  qed
  have "subseq (filter (\<lambda>p. extractPrimaryFilePath h p ?root = Some f) (parts (ms ! i)))
          (filter ?K (parts (window ?s2 ! i)))"
  proof (rule filter_frame_subseq)
    show "length (parts (window ?s2 ! i)) = length (parts (ms ! i))"
      by (simp add: cleanup_pass2_shape)
  next
    fix j assume j: "j < length (parts (ms ! i))"
      and e: "extractPrimaryFilePath h (parts (ms ! i) ! j) ?root = Some f"
    have v: "valid_pos ms (i, j)" using i j by (simp add: valid_pos_def)
    have "part_at (window ?s2) (i, j) = part_at ms (i, j)"
      using cleanup_w2_cases [of ms inval h cfg "(i, j)"] e nolive [OF v]
      by (auto simp: part_at_def live_read_def tracked_def file_op_of_def)
    then have eq: "parts (window ?s2 ! i) ! j = parts (ms ! i) ! j" by (simp add: part_at_def)
    have "?K (parts (ms ! i) ! j)"
      using e f nokeeper by (simp add: pass3_keeps_def cleanup_filesToConsolidate)
    with eq show "parts (window ?s2 ! i) ! j = parts (ms ! i) ! j \<and> ?K (parts (window ?s2 ! i) ! j)"
      by simp
  qed
  then show ?thesis using False i by (simp add: cleanup_nth(3))
qed

lemma synthetic_reads_Nil: "synthetic_reads h now root g [] = []"
  by (simp add: synthetic_reads_def)

lemma synthetic_reads_Cons:
  "synthetic_reads h now root g (f # fs)
     = (case final_latestByFile g f of None \<Rightarrow> []
        | Some l \<Rightarrow> [syntheticReadFor h now root l f])
       @ synthetic_reads h now root g fs"
  by (simp add: synthetic_reads_def)

lemma in_synthetic_reads:
  "p' \<in> set (synthetic_reads h now root g fs)
     \<longleftrightarrow> (\<exists>f \<in> set fs. \<exists>l. final_latestByFile g f = Some l
                          \<and> p' = syntheticReadFor h now root l f)"
proof (induction fs)
  case Nil
  then show ?case by (simp add: synthetic_reads_Nil)
next
  case (Cons a fs)
  show ?case
    unfolding synthetic_reads_Cons set_append Un_iff Cons.IH
    by (cases "final_latestByFile g a") auto
qed

lemma synthetic_sel [simp]:
  "isCompletedToolPart (syntheticReadFor h now root l f)"
  "tool (syntheticReadFor h now root l f) = ''read''"
  "extractPrimaryFilePath h (syntheticReadFor h now root l f) root'
     = normalizeFilePath h (Some f) root'"
  by (simp_all add: syntheticReadFor_def makeSyntheticReadPart_def Let_def isCompletedToolPart_def
        extractPrimaryFilePath_def str_field_def)

text \<open>Where a part of the window after the finalization comes from.\<close>

lemma finalize_result_part_nth:
  assumes "i < length ms"
    and "p' \<in> set (parts (fst (finalizeEditedFilesForNextStep h now ms cfg inval) ! i))"
  shows "(p' \<in> set (parts (ms ! i))
          \<and> ((editedFiles (finalize_gather h ms cfg inval) = []
                \<and> (\<forall>f \<in> set (allTouchedFiles (finalize_gather h ms cfg inval)). f \<notin> inval))
               \<or> wipe_keeps h (inferWorktreeRoot ms) (protectedExtensions cfg)
                    (protectedPatterns cfg) inval (finalize_gather h ms cfg inval) p'))
         \<or> (findLastAssistant ms = Some i
             \<and> p' \<in> set (synthetic_reads h now (inferWorktreeRoot ms) (finalize_gather h ms cfg inval)
                            (editedFiles (finalize_gather h ms cfg inval))))"
  using assms by (auto simp: finalize_nth(3) split: if_splits)

lemma finalize_result_part:
  assumes "p' \<in> set (all_parts (fst (finalizeEditedFilesForNextStep h now ms cfg inval)))"
  shows "(p' \<in> set (all_parts ms)
          \<and> ((editedFiles (finalize_gather h ms cfg inval) = []
                \<and> (\<forall>f \<in> set (allTouchedFiles (finalize_gather h ms cfg inval)). f \<notin> inval))
               \<or> wipe_keeps h (inferWorktreeRoot ms) (protectedExtensions cfg)
                    (protectedPatterns cfg) inval (finalize_gather h ms cfg inval) p'))
         \<or> p' \<in> set (synthetic_reads h now (inferWorktreeRoot ms) (finalize_gather h ms cfg inval)
                         (editedFiles (finalize_gather h ms cfg inval)))"
proof -
  from assms obtain i where i: "i < length ms"
    and p: "p' \<in> set (parts (fst (finalizeEditedFilesForNextStep h now ms cfg inval) ! i))"
    by (auto simp: in_all_parts)
  from finalize_result_part_nth [OF i p] in_all_parts_nth [OF i] show ?thesis by blast
qed

lemma edited_key_stable:
  assumes stable: "list_all (resolves_to_itself h (inferWorktreeRoot ms)) (all_parts ms)"
    and g: "g \<in> set (editedFiles (finalize_gather h ms cfg inval))"
  shows "normalizeFilePath h (Some g) (inferWorktreeRoot ms) = Some g" and "g \<notin> inval"
proof -
  from g obtain q where q: "q \<in> set (all_parts ms)"
    "edits_file h (inferWorktreeRoot ms) (protectedExtensions cfg) (protectedPatterns cfg) inval q g"
    unfolding finalize_edited by blast
  from q(2) have e: "extractPrimaryFilePath h q (inferWorktreeRoot ms) = Some g"
    by (simp add: edits_file_def touches_def)
  from q(1) stable have "resolves_to_itself h (inferWorktreeRoot ms) q" by (simp add: list_all_iff)
  with e show "normalizeFilePath h (Some g) (inferWorktreeRoot ms) = Some g"
    by (simp add: resolves_to_itself_def)
  from q(2) show "g \<notin> inval" by (simp add: edits_file_def)
qed

lemma finalize_wipes_invalidated:
  assumes f: "f \<in> inval" "\<not> isFileProtected f (protectedExtensions cfg) (protectedPatterns cfg)"
    and stable: "list_all (resolves_to_itself h (inferWorktreeRoot ms)) (all_parts ms)"
    and p': "p' \<in> set (all_parts (fst (finalizeEditedFilesForNextStep h now ms cfg inval)))"
  shows "\<not> file_op_of h (inferWorktreeRoot ms) p' f"
proof
  let ?root = "inferWorktreeRoot ms"
  let ?g = "finalize_gather h ms cfg inval"
  assume op: "file_op_of h ?root p' f"
  from finalize_result_part [OF p'] show False
  proof (elim disjE conjE)
    assume m: "p' \<in> set (all_parts ms)"
      and n: "\<forall>f \<in> set (allTouchedFiles ?g). f \<notin> inval"
    have "f \<in> set (allTouchedFiles ?g)"
      unfolding finalize_touched using m op f(2) by (auto simp: touches_def file_op_of_def)
    with n show False using f(1) by blast
  next
    assume "wipe_keeps h ?root (protectedExtensions cfg) (protectedPatterns cfg) inval ?g p'"
    then show False using op f by (simp add: wipe_keeps_def file_op_of_def)
  next
    assume "p' \<in> set (synthetic_reads h now ?root ?g (editedFiles ?g))"
    then obtain g l where g: "g \<in> set (editedFiles ?g)" and eq: "p' = syntheticReadFor h now ?root l g"
      unfolding in_synthetic_reads by blast
    from edited_key_stable [OF stable g] op eq f(1) show False
      by (simp add: file_op_of_def)
  qed
qed
lemma filter_single:
  assumes "j < length xs" and "R (xs ! j)"
    and "\<And>j'. j' < length xs \<Longrightarrow> R (xs ! j') \<Longrightarrow> j' = j"
  shows "filter R xs = [xs ! j]"
proof -
  have xs: "xs = take j xs @ xs ! j # drop (Suc j) xs"
    using assms(1) by (rule id_take_nth_drop)
  have a: "filter R (take j xs) = []"
  proof -
    have "\<forall>x \<in> set (take j xs). \<not> R x"
    proof
      fix x assume "x \<in> set (take j xs)"
      then obtain k where k: "k < length (take j xs)" "x = take j xs ! k"
        by (metis in_set_conv_nth)
      then have "k < j" "k < length xs" "x = xs ! k" using assms(1) by simp_all
      then show "\<not> R x" using assms(3) [of k] by auto
    qed
    then show ?thesis by (simp add: filter_empty_conv)
  qed
  have b: "filter R (drop (Suc j) xs) = []"
  proof -
    have "\<forall>x \<in> set (drop (Suc j) xs). \<not> R x"
    proof
      fix x assume "x \<in> set (drop (Suc j) xs)"
      then obtain k where k: "k < length (drop (Suc j) xs)" "x = drop (Suc j) xs ! k"
        by (metis in_set_conv_nth)
      then have "Suc j + k < length xs" "x = xs ! (Suc j + k)" using assms(1) by simp_all
      then show "\<not> R x" using assms(3) [of "Suc j + k"] by auto
    qed
    then show ?thesis by (simp add: filter_empty_conv)
  qed
  have "filter R xs = filter R (take j xs @ xs ! j # drop (Suc j) xs)"
    using xs by simp
  then show ?thesis using a b assms(2) by simp
qed

lemma filter_concat_single:
  assumes "i < length xss" and "j < length (xss ! i)" and "R (xss ! i ! j)"
    and "\<And>i' j'. i' < length xss \<Longrightarrow> j' < length (xss ! i') \<Longrightarrow> R (xss ! i' ! j')
           \<Longrightarrow> i' = i \<and> j' = j"
  shows "filter R (concat xss) = [xss ! i ! j]"
proof -
  have one: "filter R (xss ! i) = [xss ! i ! j]"
  proof (rule filter_single [of j "xss ! i" R, OF assms(2) assms(3)])
    fix j' assume "j' < length (xss ! i)" "R (xss ! i ! j')"
    then show "j' = j" using assms(4) [OF assms(1), of j'] by simp
  qed
  have other: "\<And>i'. i' < length xss \<Longrightarrow> i' \<noteq> i \<Longrightarrow> filter R (xss ! i') = []"
  proof -
    fix i' assume i': "i' < length xss" "i' \<noteq> i"
    have "\<forall>x \<in> set (xss ! i'). \<not> R x"
    proof
      fix x assume "x \<in> set (xss ! i')"
      then obtain k where "k < length (xss ! i')" "x = xss ! i' ! k" by (metis in_set_conv_nth)
      then show "\<not> R x" using assms(4) [OF i'(1), of k] i'(2) by blast
    qed
    then show "filter R (xss ! i') = []" by (simp add: filter_empty_conv)
  qed
  have "concat (map (filter R) xss) = [xss ! i ! j]"
  proof -
    let ?yss = "map (filter R) xss"
    have len: "i < length ?yss" using assms(1) by simp
    have "filter (\<lambda>ys. ys \<noteq> []) ?yss = [?yss ! i]"
    proof (rule filter_single [of i ?yss "\<lambda>ys. ys \<noteq> []", OF len])
      show "?yss ! i \<noteq> []" using one assms(1) by simp
    next
      fix i' assume "i' < length ?yss" "?yss ! i' \<noteq> []"
      then show "i' = i" using other [of i'] by auto
    qed
    moreover have "concat ?yss = concat (filter (\<lambda>ys. ys \<noteq> []) ?yss)"
      by (induction xss) auto
    ultimately show ?thesis using one assms(1) by simp
  qed
  then show ?thesis by (simp add: filter_concat)
qed

lemma filter_concat_filter:
  "filter P (concat (map (\<lambda>m. filter K (g m)) ms))
     = filter (\<lambda>p. K p \<and> P p) (concat (map g ms))"
  by (induction ms) (simp_all add: conj_commute)

lemma completed_reads_window:
  "map callID (completed_reads ms)
     = map (callID \<circ> snd)
         (filter (\<lambda>e. isCompletedToolPart (snd e) \<and> tool (snd e) = ''read'') (window_parts ms))"
  by (simp add: completed_reads_def all_parts_def map_snd_window_parts [symmetric] filter_map
        comp_def)

lemma distinct_callIDs_pos:
  assumes "distinct (map callID (completed_reads ms))"
    and "valid_pos ms pos" and "valid_pos ms pos'"
    and "isCompletedToolPart (part_at ms pos)" and "tool (part_at ms pos) = ''read''"
    and "isCompletedToolPart (part_at ms pos')" and "tool (part_at ms pos') = ''read''"
    and "callID (part_at ms pos) = callID (part_at ms pos')"
  shows "pos = pos'"
proof -
  let ?es = "filter (\<lambda>e. isCompletedToolPart (snd e) \<and> tool (snd e) = ''read'') (window_parts ms)"
  have inj: "inj_on (callID \<circ> snd) (set ?es)"
    using assms(1) unfolding completed_reads_window by (simp add: distinct_map)
  have a: "(pos, part_at ms pos) \<in> set ?es" using assms(2,4,5) by (simp add: in_window_parts)
  have b: "(pos', part_at ms pos') \<in> set ?es" using assms(3,6,7) by (simp add: in_window_parts)
  have "(callID \<circ> snd) (pos, part_at ms pos) = (callID \<circ> snd) (pos', part_at ms pos')"
    using assms(8) by simp
  then have "(pos, part_at ms pos) = (pos', part_at ms pos')"
    using inj a b by (rule_tac inj_onD [of "callID \<circ> snd" "set ?es"])
  then show ?thesis by simp
qed

lemma completed_read_callID:
  assumes "None \<notin> set (map callID (completed_reads ms))"
    and "Some [] \<notin> set (map callID (completed_reads ms))"
    and "valid_pos ms pos"
    and "isCompletedToolPart (part_at ms pos)" and "tool (part_at ms pos) = ''read''"
  shows "\<exists>c. callID (part_at ms pos) = Some c \<and> c \<noteq> []"
proof -
  have "part_at ms pos \<in> set (all_parts ms)"
    unfolding in_all_parts_pos using assms(3) by blast
  then have "part_at ms pos \<in> set (completed_reads ms)"
    using assms(4,5) unfolding completed_reads_def by simp
  then have "callID (part_at ms pos) \<in> set (map callID (completed_reads ms))" by simp
  with assms(1,2) show ?thesis by (cases "callID (part_at ms pos)") auto
qed


lemma cleanup_file_ops_single:
  assumes lr: "lastReadByFile (cleanup_pass1 h ms cfg inval) f = Some pk"
    and dist: "distinct (map callID (completed_reads ms))"
    and nonnull: "None \<notin> set (map callID (completed_reads ms))"
    and nonempty: "Some [] \<notin> set (map callID (completed_reads ms))"
    and stable: "list_all (resolves_to_itself h (inferWorktreeRoot ms)) (all_parts ms)"
  shows "filter (\<lambda>p. file_op_of h (inferWorktreeRoot ms) p f)
           (all_parts (fst (cleanupMessagesForContextJar h ms cfg inval)))
         = [rewrite_keeper (part_at ms pk)
              (normalizedOutput (cleanup_pass1 h ms cfg inval) f (part_at ms pk)) f]"
proof -
  let ?root = "inferWorktreeRoot ms"
  let ?exts = "protectedExtensions cfg"
  let ?pats = "protectedPatterns cfg"
  let ?s1 = "cleanup_pass1 h ms cfg inval"
  let ?s2 = "cleanup_pass2 ms inval ?s1"
  let ?w2 = "window ?s2"
  let ?K = "pass3_keeps h ?root ?exts ?pats inval ?s1 ?s2"
  let ?P = "\<lambda>p. file_op_of h ?root p f"
  let ?R = "\<lambda>p. ?K p \<and> ?P p"
  let ?k = "rewrite_keeper (part_at ms pk) (normalizedOutput ?s1 f (part_at ms pk)) f"
  note lk = cleanup_lastRead_Some [OF lr]
  have vk: "valid_pos ms pk" using lk by simp
  have live: "live_read h ?root ?exts ?pats inval (part_at ms pk) f" using lk by simp
  have trk: "tracked h ?root ?exts ?pats (part_at ms pk) f" using live by (simp add: live_read_def)
  have fop: "file_op_of h ?root (part_at ms pk) f" using trk by (simp add: tracked_def)
  have np: "\<not> isFileProtected f ?exts ?pats" using trk by (simp add: tracked_def)
  have nf: "f \<notin> inval" using live by (simp add: live_read_def)
  have rd: "tool (part_at ms pk) = ''read''" using live by (simp add: live_read_def)
  have comp: "isCompletedToolPart (part_at ms pk)" using fop by (simp add: file_op_of_def)
  have hist: "f \<in> set (filesWithHistory ?s1)"
    unfolding cleanup_history using vk trk by blast
  then have ne: "filesWithHistory ?s1 \<noteq> []" by auto
  have cons: "f \<in> filesToConsolidate ?s2"
    unfolding cleanup_filesToConsolidate using lr by simp
  have keeper: "part_at ?w2 pk = ?k" by (rule cleanup_keeper [OF lr])
  have stab: "normalizeFilePath h (Some f) ?root = Some f"
    using stable_original [OF stable vk] fop by (simp add: file_op_of_def)
  have win: "all_parts (fst (cleanupMessagesForContextJar h ms cfg inval))
               = concat (map (\<lambda>m. filter ?K (parts m)) ?w2)"
    using ne by (simp add: cleanup_window all_parts_def comp_def)
  have "filter ?P (all_parts (fst (cleanupMessagesForContextJar h ms cfg inval)))
          = filter ?R (concat (map parts ?w2))"
    unfolding win by (rule filter_concat_filter)
  also have "\<dots> = [map parts ?w2 ! fst pk ! snd pk]"
  proof (rule filter_concat_single [of "fst pk" "map parts ?w2" "snd pk" ?R])
    show "fst pk < length (map parts ?w2)" using vk by (simp add: valid_pos_def cleanup_pass2_shape)
    show "snd pk < length (map parts ?w2 ! fst pk)"
      using vk by (simp add: valid_pos_def cleanup_pass2_shape)
    have at: "map parts ?w2 ! fst pk ! snd pk = ?k"
      using vk keeper by (simp add: valid_pos_def cleanup_pass2_shape part_at_def)
    obtain c where c: "callID (part_at ms pk) = Some c" "c \<noteq> []"
      using completed_read_callID [OF nonnull nonempty vk comp rd] by blast
    have "c = callID_or_empty (part_at ms pk)" using c by (simp add: callID_or_empty_def)
    then have ck: "c \<in> keepCallIDs ?s2"
      unfolding cleanup_keepCallIDs using lr by blast
    have Pk: "?P ?k"
      using comp rd stab by (simp add: file_op_of_def extract_rewrite_keeper isFileTool_def)
    have Kk: "?K ?k"
      using comp rd stab hist cons c ck nf np
      by (simp add: pass3_keeps_def extract_rewrite_keeper isFileTool_def)
    show "?R (map parts ?w2 ! fst pk ! snd pk)" unfolding at using Pk Kk by simp
  next
    fix i' j'
    assume i': "i' < length (map parts ?w2)" and j': "j' < length (map parts ?w2 ! i')"
      and R: "?R (map parts ?w2 ! i' ! j')"
    let ?pos = "(i', j')"
    have v: "valid_pos ms ?pos" using i' j' by (simp add: valid_pos_def cleanup_pass2_shape)
    have at: "map parts ?w2 ! i' ! j' = part_at ?w2 ?pos"
      using i' by (simp add: part_at_def)
    have P: "?P (part_at ?w2 ?pos)" and K: "?K (part_at ?w2 ?pos)" using R at by simp_all
    have "?pos = pk"
      using cleanup_w2_cases [of ms inval h cfg ?pos]
    proof (elim disjE exE conjE)
      assume same: "part_at ?w2 ?pos = part_at ms ?pos"
      let ?p = "part_at ms ?pos"
      have Pp: "file_op_of h ?root ?p f" using P same by simp
      have Kp: "?K ?p" using K same by simp
      have "tool ?p = ''read'' \<and> (\<exists>c. callID ?p = Some c \<and> c \<noteq> [] \<and> c \<in> keepCallIDs ?s2)"
        using Kp Pp hist np nf cons
        by (auto simp: pass3_keeps_def file_op_of_def split: option.splits)
      then obtain c where rdp: "tool ?p = ''read''" and c: "callID ?p = Some c" "c \<noteq> []"
        and ck: "c \<in> keepCallIDs ?s2" by blast
      from ck obtain g pos'' where g: "lastReadByFile ?s1 g = Some pos''"
        and cg: "c = callID_or_empty (part_at ms pos'')"
        unfolding cleanup_keepCallIDs by blast
      note lg = cleanup_lastRead_Some [OF g]
      have vg: "valid_pos ms pos''" using lg by simp
      have liveg: "live_read h ?root ?exts ?pats inval (part_at ms pos'') g" using lg by simp
      have compg: "isCompletedToolPart (part_at ms pos'')"
        using liveg by (simp add: live_read_def tracked_def file_op_of_def)
      have rdg: "tool (part_at ms pos'') = ''read''" using liveg by (simp add: live_read_def)
      obtain c'' where c'': "callID (part_at ms pos'') = Some c''"
        using completed_read_callID [OF nonnull nonempty vg compg rdg] by blast
      have eq: "callID ?p = callID (part_at ms pos'')"
        using c cg c'' by (simp add: callID_or_empty_def)
      have compp: "isCompletedToolPart ?p" using Pp by (simp add: file_op_of_def)
      have "?pos = pos''"
        by (rule distinct_callIDs_pos [OF dist v vg compp rdp compg rdg eq])
      then have "file_op_of h ?root (part_at ms pos'') f" using Pp by simp
      moreover have "file_op_of h ?root (part_at ms pos'') g"
        using liveg by (simp add: live_read_def tracked_def)
      ultimately have "g = f" by (simp add: file_op_of_def)
      then show "?pos = pk" using g lr \<open>?pos = pos''\<close> by simp
    next
      fix g
      assume g: "lastReadByFile ?s1 g = Some ?pos"
        and liveg: "live_read h ?root ?exts ?pats inval (part_at ms ?pos) g"
        and kp: "part_at ?w2 ?pos
                   = rewrite_keeper (part_at ms ?pos) (normalizedOutput ?s1 g (part_at ms ?pos)) g"
      have fopg: "file_op_of h ?root (part_at ms ?pos) g"
        using liveg by (simp add: live_read_def tracked_def)
      have compg: "isCompletedToolPart (part_at ms ?pos)" using fopg by (simp add: file_op_of_def)
      have stg: "normalizeFilePath h (Some g) ?root = Some g"
        using stable_original [OF stable v] fopg by (simp add: file_op_of_def)
      have "extractPrimaryFilePath h (part_at ?w2 ?pos) ?root = Some g"
        unfolding kp using compg stg by (simp add: extract_rewrite_keeper)
      moreover have "extractPrimaryFilePath h (part_at ?w2 ?pos) ?root = Some f"
        using P by (simp add: file_op_of_def)
      ultimately have "g = f" by simp
      then show "?pos = pk" using g lr by simp
    qed
    then show "i' = fst pk \<and> j' = snd pk" by auto
  qed
  also have "map parts ?w2 ! fst pk ! snd pk = ?k"
    using vk keeper by (simp add: valid_pos_def cleanup_pass2_shape part_at_def)
  finally show ?thesis .
qed










lemma rewrite_keeper_fields:
  assumes "isCompletedToolPart p"
  shows "output_str (state (rewrite_keeper p out g)) = out"
    and "str_field (input (state (rewrite_keeper p out g))) ''filePath'' = Some g"
  using assms
  by (auto simp: isCompletedToolPart_def rewrite_keeper_def removeCompactedMarker_def
        str_field_def update_conv' split: Part.splits ToolState.splits)

lemma same_slot_refl: "same_slot h root p p"
  by (simp add: same_slot_def)

lemma cleanup_slots_nth:
  assumes i: "i < length ms"
  shows "\<exists>qs K. list_all2 (same_slot h (inferWorktreeRoot ms)) (parts (ms ! i)) qs
           \<and> (\<forall>q. outside_scope h (inferWorktreeRoot ms) q \<longrightarrow> K q)
           \<and> parts (fst (cleanupMessagesForContextJar h ms cfg inval) ! i) = filter K qs"
proof (cases "filesWithHistory (cleanup_pass1 h ms cfg inval) = []")
  case True
  have "list_all2 (same_slot h (inferWorktreeRoot ms)) (parts (ms ! i)) (parts (ms ! i))"
    by (simp add: list_all2_same same_slot_refl)
  moreover have "parts (fst (cleanupMessagesForContextJar h ms cfg inval) ! i)
                   = filter (\<lambda>q. True) (parts (ms ! i))"
    using True i by (simp add: cleanup_nth(3))
  ultimately show ?thesis
    by (intro exI [of _ "parts (ms ! i)"] exI [of _ "\<lambda>q. True"]) simp
next
  case False
  let ?s1 = "cleanup_pass1 h ms cfg inval"
  let ?w2 = "window (cleanup_pass2 ms inval ?s1)"
  let ?root = "inferWorktreeRoot ms"
  let ?K = "pass3_keeps h ?root (protectedExtensions cfg) (protectedPatterns cfg) inval ?s1
              (cleanup_pass2 ms inval ?s1)"
  have "list_all2 (same_slot h ?root) (parts (ms ! i)) (parts (?w2 ! i))"
  proof (rule list_all2_all_nthI)
    show "length (parts (ms ! i)) = length (parts (?w2 ! i))" by (simp add: cleanup_pass2_shape)
  next
    fix j assume j: "j < length (parts (ms ! i))"
    let ?p = "parts (ms ! i) ! j"
    let ?q = "parts (?w2 ! i) ! j"
    show "same_slot h ?root ?p ?q"
    proof (cases "outside_scope h ?root ?p")
      case True
      have "part_at ?w2 (i, j) = part_at ms (i, j)"
        using cleanup_w2_cases [of ms inval h cfg "(i, j)"] True
        by (auto simp: outside_scope_iff live_read_def tracked_def part_at_def)
      then show ?thesis using True by (simp add: part_at_def same_slot_def)
    next
      case False
      from cleanup_w2_cases [of ms inval h cfg "(i, j)"]
      have "\<not> outside_scope h ?root ?q
            \<and> (?q = ?p
                \<or> ?q = rewrite_keeper ?p (output_str (state ?q))
                     (case str_field (input (state ?q)) ''filePath'' of Some f \<Rightarrow> f | None \<Rightarrow> []))"
      proof (elim disjE exE conjE)
        assume "part_at ?w2 (i, j) = part_at ms (i, j)"
        then show ?thesis using False by (simp add: part_at_def)
      next
        fix g
        assume lr: "live_read h ?root (protectedExtensions cfg) (protectedPatterns cfg) inval
                      (part_at ms (i, j)) g"
          and kp: "part_at ?w2 (i, j)
                     = rewrite_keeper (part_at ms (i, j))
                         (normalizedOutput ?s1 g (part_at ms (i, j))) g"
        have op: "file_op_of h ?root ?p g"
          using lr by (simp add: live_read_def tracked_def part_at_def)
        then have comp: "isCompletedToolPart ?p" by (simp add: file_op_of_def)
        have q: "?q = rewrite_keeper ?p (normalizedOutput ?s1 g ?p) g"
          using kp by (simp add: part_at_def)
        have "\<not> outside_scope h ?root ?q" unfolding q by (rule rewrite_keeper_in_scope [OF op])
        moreover have "?q = rewrite_keeper ?p (output_str (state ?q))
                     (case str_field (input (state ?q)) ''filePath'' of Some f \<Rightarrow> f | None \<Rightarrow> [])"
          using q rewrite_keeper_fields [OF comp, of "normalizedOutput ?s1 g ?p" g] by simp
        ultimately show ?thesis by simp
      qed
      then show ?thesis using False by (simp add: same_slot_def)
    qed
  qed
  moreover have "\<forall>q. outside_scope h ?root q \<longrightarrow> ?K q" by (simp add: pass3_keeps_outside)
  moreover have "parts (fst (cleanupMessagesForContextJar h ms cfg inval) ! i)
                   = filter ?K (parts (?w2 ! i))"
    using False i by (simp add: cleanup_nth(3))
  ultimately show ?thesis
    by (intro exI [of _ "parts (?w2 ! i)"] exI [of _ ?K]) simp
qed

lemma finalize_slots_nth:
  assumes i: "i < length ms"
  shows "\<exists>K. (\<forall>q. outside_scope h (inferWorktreeRoot ms) q \<longrightarrow> K q)
           \<and> parts (fst (finalizeEditedFilesForNextStep h now ms cfg inval) ! i)
               = filter K (parts (ms ! i))
                 @ (if findLastAssistant ms = Some i
                    then synthetic_reads h now (inferWorktreeRoot ms)
                           (finalize_gather h ms cfg inval)
                           (editedFiles (finalize_gather h ms cfg inval))
                    else [])"
proof (cases "editedFiles (finalize_gather h ms cfg inval) = []
                \<and> (\<forall>f \<in> set (allTouchedFiles (finalize_gather h ms cfg inval)). f \<notin> inval)")
  case True
  have "parts (fst (finalizeEditedFilesForNextStep h now ms cfg inval) ! i)
          = filter (\<lambda>q. True) (parts (ms ! i))
            @ (if findLastAssistant ms = Some i
               then synthetic_reads h now (inferWorktreeRoot ms)
                      (finalize_gather h ms cfg inval)
                      (editedFiles (finalize_gather h ms cfg inval))
               else [])"
    using True i by (simp add: finalize_nth(3) synthetic_reads_Nil)
  then show ?thesis
    by (intro exI [of _ "\<lambda>q. True"]) simp
next
  case False
  let ?root = "inferWorktreeRoot ms"
  let ?g = "finalize_gather h ms cfg inval"
  let ?K = "wipe_keeps h ?root (protectedExtensions cfg) (protectedPatterns cfg) inval ?g"
  have "parts (fst (finalizeEditedFilesForNextStep h now ms cfg inval) ! i)
          = filter ?K (parts (ms ! i))
            @ (if findLastAssistant ms = Some i
               then synthetic_reads h now ?root ?g (editedFiles ?g) else [])"
    using False i finalize_nth(3) [OF i, of h now cfg inval] by auto
  moreover have "\<forall>q. outside_scope h ?root q \<longrightarrow> ?K q" by (simp add: wipe_keeps_outside)
  ultimately show ?thesis
    by (intro exI [of _ ?K]) simp
qed

lemma to_lower_char_idem: "to_lower_char (to_lower_char c) = to_lower_char c"
  by (simp add: to_lower_char_def)

lemma toLowerCase_idem: "toLowerCase (toLowerCase s) = toLowerCase s"
  by (simp add: toLowerCase_def to_lower_char_idem)

lemma toLowerCase_tl: "toLowerCase (tl s) = tl (toLowerCase s)"
  by (simp add: toLowerCase_def map_tl)






















section \<open>The claims\<close>

subsection \<open>C7: the stats store keeps the last delta only\<close>

text \<open>
  C7. After any run of passes for a session that ends with pass A and then pass B, the
  stored Session Token Stats hold the delta of B alone, both as \<open>total\<close> and as
  \<open>lastStep\<close>: recording replaces the stored delta and never adds to it.
\<close>

theorem record_replaces_delta:
  "map_option total (tracker_get (record_passes st sid (passes @ [(tA, dA), (tB, dB)])) sid)
     = Some dB
   \<and> map_option lastStep
         (tracker_get (record_passes st sid (passes @ [(tA, dA), (tB, dB)])) sid) = Some dB
   \<and> total (fst (tracker_record (snd (tracker_record st tA sid dA)) tB sid dB)) = dB"
  by (simp add: record_passes_def tracker_record_def tracker_get_def Let_def)

subsection \<open>C9: the extension check folds the case of the path only\<close>

text \<open>
  The extension of the path is lower-cased before it is compared, so a path whose extension
  equals, up to letter case, a configured extension written in lower case (with or without
  its leading dot) is matched.
\<close>

lemma matchesExtension_lowercase_config:
  assumes "e \<in> set exts" and "toLowerCase e = e" and "path_extname p \<noteq> []"
    and "toLowerCase (path_extname p) = toLowerCase e
         \<or> toLowerCase (path_extname p) = CHR ''.'' # toLowerCase e"
  shows "matchesExtension p exts"
  using assms by (auto simp: matchesExtension_def toLowerCase_def)

text \<open>
  C9. The configured extensions are compared as they are written: when every configured
  extension contains an upper-case letter, \<open>matchesExtension\<close> matches no path at all,
  whatever the letter case of its extension. A configured \<open>.MD\<close> matches neither
  \<open>notes.md\<close> nor \<open>NOTES.MD\<close>, so the check is not case-insensitive in the direction
  of the configured list.
\<close>

theorem matchesExtension_uppercase_config_unmatched:
  assumes "\<forall>e \<in> set exts. toLowerCase e \<noteq> e"
  shows "\<not> matchesExtension p exts"
proof
  assume m: "matchesExtension p exts"
  let ?ext = "toLowerCase (path_extname p)"
  from m have "?ext \<in> set exts \<or> tl ?ext \<in> set exts"
    by (simp add: matchesExtension_def Let_def split: if_splits)
  moreover have "toLowerCase ?ext = ?ext" by (rule toLowerCase_idem)
  moreover have "toLowerCase (tl ?ext) = tl ?ext"
    by (simp add: toLowerCase_tl toLowerCase_idem)
  ultimately show False using assms by blast
qed

theorem matchesExtension_uppercase_config_unmatched_witness:
  "toLowerCase ''.MD'' \<noteq> ''.MD''
   \<and> path_extname ''/proj/NOTES.MD'' = ''.MD''
   \<and> \<not> matchesExtension ''/proj/NOTES.MD'' [''.MD'']
   \<and> \<not> matchesExtension ''/proj/notes.md'' [''.MD'']
   \<and> matchesExtension ''/proj/NOTES.MD'' [''.md'']"
proof -
  have a: "\<forall>e \<in> set [''.MD'']. toLowerCase e \<noteq> e"
    by (simp add: toLowerCase_def to_lower_char_def)
  have b: "path_extname ''/proj/NOTES.MD'' = ''.MD''"
    by (simp add: path_extname_def path_basename_def)
  have c: "matchesExtension ''/proj/NOTES.MD'' [''.md'']"
    by (simp add: matchesExtension_def toLowerCase_def to_lower_char_def path_extname_def
          path_basename_def)
  show ?thesis
    using matchesExtension_uppercase_config_unmatched [OF a, of "''/proj/NOTES.MD''"]
      matchesExtension_uppercase_config_unmatched [OF a, of "''/proj/notes.md''"] a b c
    by simp
qed


subsection \<open>C10: parts outside the engines' scope\<close>

text \<open>
  C10. Both engines keep the messages and their roles, and in every message every part
  outside their scope (a part that is not a tool part, a tool part that is not completed,
  a completed part of a tool other than read, edit, multiedit and write, a file-tool part
  whose path does not resolve) stays unchanged in its slot. The consolidation returns the
  parts of the message slot by slot, a part in scope being the original part or that part
  with a new output and path, filtered by a condition that every part outside the scope
  passes. The finalization returns the parts of the message filtered by such a condition,
  followed, in the last assistant message, by the synthetic reads it builds, which are in
  scope. So the parts outside the scope are the same list before and after, in the same
  order relative to each other and to the surviving parts, and whatever is removed or
  rewritten is a completed file-operation part with a path that resolves.
\<close>

theorem parts_outside_scope_preserved:
  "length (fst (cleanupMessagesForContextJar h ms cfg inval)) = length ms
   \<and> map role (fst (cleanupMessagesForContextJar h ms cfg inval)) = map role ms
   \<and> map (\<lambda>m. filter (outside_scope h (inferWorktreeRoot ms)) (parts m))
        (fst (cleanupMessagesForContextJar h ms cfg inval))
      = map (\<lambda>m. filter (outside_scope h (inferWorktreeRoot ms)) (parts m)) ms
   \<and> (\<forall>i < length ms. \<exists>qs K.
         list_all2 (same_slot h (inferWorktreeRoot ms)) (parts (ms ! i)) qs
         \<and> (\<forall>q. outside_scope h (inferWorktreeRoot ms) q \<longrightarrow> K q)
         \<and> parts (fst (cleanupMessagesForContextJar h ms cfg inval) ! i) = filter K qs)
   \<and> length (fst (finalizeEditedFilesForNextStep h now ms cfg inval)) = length ms
   \<and> map role (fst (finalizeEditedFilesForNextStep h now ms cfg inval)) = map role ms
   \<and> map (\<lambda>m. filter (outside_scope h (inferWorktreeRoot ms)) (parts m))
        (fst (finalizeEditedFilesForNextStep h now ms cfg inval))
      = map (\<lambda>m. filter (outside_scope h (inferWorktreeRoot ms)) (parts m)) ms
   \<and> list_all (\<lambda>q. \<not> outside_scope h (inferWorktreeRoot ms) q)
        (synthetic_reads h now (inferWorktreeRoot ms) (finalize_gather h ms cfg inval)
           (editedFiles (finalize_gather h ms cfg inval)))
   \<and> (\<forall>i < length ms. \<exists>K.
         (\<forall>q. outside_scope h (inferWorktreeRoot ms) q \<longrightarrow> K q)
         \<and> parts (fst (finalizeEditedFilesForNextStep h now ms cfg inval) ! i)
             = filter K (parts (ms ! i))
               @ (if findLastAssistant ms = Some i
                  then synthetic_reads h now (inferWorktreeRoot ms)
                         (finalize_gather h ms cfg inval)
                         (editedFiles (finalize_gather h ms cfg inval))
                  else []))"
proof (intro conjI allI impI)
  show "length (fst (cleanupMessagesForContextJar h ms cfg inval)) = length ms" by simp
  show "map role (fst (cleanupMessagesForContextJar h ms cfg inval)) = map role ms"
    by (rule nth_equalityI) (simp_all add: cleanup_nth(1))
  show "map (\<lambda>m. filter (outside_scope h (inferWorktreeRoot ms)) (parts m))
        (fst (cleanupMessagesForContextJar h ms cfg inval))
      = map (\<lambda>m. filter (outside_scope h (inferWorktreeRoot ms)) (parts m)) ms"
    by (rule nth_equalityI) (simp_all add: cleanup_frame_outside_nth)
  show "length (fst (finalizeEditedFilesForNextStep h now ms cfg inval)) = length ms" by simp
  show "map role (fst (finalizeEditedFilesForNextStep h now ms cfg inval)) = map role ms"
    by (rule nth_equalityI) (simp_all add: finalize_nth(1))
  show "map (\<lambda>m. filter (outside_scope h (inferWorktreeRoot ms)) (parts m))
        (fst (finalizeEditedFilesForNextStep h now ms cfg inval))
      = map (\<lambda>m. filter (outside_scope h (inferWorktreeRoot ms)) (parts m)) ms"
    by (rule nth_equalityI) (simp_all add: finalize_frame_outside_nth)
  show "list_all (\<lambda>q. \<not> outside_scope h (inferWorktreeRoot ms) q)
        (synthetic_reads h now (inferWorktreeRoot ms) (finalize_gather h ms cfg inval)
           (editedFiles (finalize_gather h ms cfg inval)))"
    using finalize_synthetic_in_scope [of h ms now cfg inval]
    by (simp add: filter_empty_conv list_all_iff)
next
  fix i assume "i < length ms"
  then show "\<exists>qs K.
         list_all2 (same_slot h (inferWorktreeRoot ms)) (parts (ms ! i)) qs
         \<and> (\<forall>q. outside_scope h (inferWorktreeRoot ms) q \<longrightarrow> K q)
         \<and> parts (fst (cleanupMessagesForContextJar h ms cfg inval) ! i) = filter K qs"
    by (rule cleanup_slots_nth)
next
  fix i assume "i < length ms"
  then show "\<exists>K.
         (\<forall>q. outside_scope h (inferWorktreeRoot ms) q \<longrightarrow> K q)
         \<and> parts (fst (finalizeEditedFilesForNextStep h now ms cfg inval) ! i)
             = filter K (parts (ms ! i))
               @ (if findLastAssistant ms = Some i
                  then synthetic_reads h now (inferWorktreeRoot ms)
                         (finalize_gather h ms cfg inval)
                         (editedFiles (finalize_gather h ms cfg inval))
                  else [])"
    by (rule finalize_slots_nth)
qed

theorem parts_outside_scope_preserved_witness:
  "(1::nat) < length example_window
   \<and> map (\<lambda>m. filter (outside_scope posix_host (inferWorktreeRoot example_window)) (parts m))
       (fst (cleanupMessagesForContextJar posix_host example_window example_config {}))
     = [[text_part ''hi''], [pending_read ''c0'' ''/p/a.ts'']]
   \<and> map (\<lambda>m. filter (outside_scope posix_host (inferWorktreeRoot example_window)) (parts m))
       (fst (finalizeEditedFilesForNextStep posix_host 7 example_window example_config {}))
     = [[text_part ''hi''], [pending_read ''c0'' ''/p/a.ts'']]
   \<and> (\<exists>qs K.
         list_all2 (same_slot posix_host (inferWorktreeRoot example_window))
           (parts (example_window ! 1)) qs
         \<and> (\<forall>q. outside_scope posix_host (inferWorktreeRoot example_window) q \<longrightarrow> K q)
         \<and> parts (fst (cleanupMessagesForContextJar posix_host example_window example_config {})
                    ! 1) = filter K qs)
   \<and> (\<exists>K.
         (\<forall>q. outside_scope posix_host (inferWorktreeRoot example_window) q \<longrightarrow> K q)
         \<and> parts (fst (finalizeEditedFilesForNextStep posix_host 7 example_window
                          example_config {}) ! 1)
             = filter K (parts (example_window ! 1))
               @ synthetic_reads posix_host 7 (inferWorktreeRoot example_window)
                   (finalize_gather posix_host example_window example_config {})
                   (editedFiles (finalize_gather posix_host example_window example_config {})))
   \<and> fst (cleanupMessagesForContextJar posix_host example_window example_config {})
       \<noteq> example_window
   \<and> fst (finalizeEditedFilesForNextStep posix_host 7 example_window example_config {})
       \<noteq> example_window"
proof -
  note t = parts_outside_scope_preserved [of posix_host example_window example_config "{}" 7]
  have l: "(1::nat) < length example_window" by code_simp
  have la: "findLastAssistant example_window = Some 1" by code_simp
  have a: "map (\<lambda>m. filter (outside_scope posix_host (inferWorktreeRoot example_window)) (parts m))
       example_window = [[text_part ''hi''], [pending_read ''c0'' ''/p/a.ts'']]"
    by code_simp
  have n1: "fst (cleanupMessagesForContextJar posix_host example_window example_config {})
       \<noteq> example_window" by code_simp
  have n2: "fst (finalizeEditedFilesForNextStep posix_host 7 example_window example_config {})
       \<noteq> example_window" by code_simp
  have c: "\<exists>qs K.
         list_all2 (same_slot posix_host (inferWorktreeRoot example_window))
           (parts (example_window ! 1)) qs
         \<and> (\<forall>q. outside_scope posix_host (inferWorktreeRoot example_window) q \<longrightarrow> K q)
         \<and> parts (fst (cleanupMessagesForContextJar posix_host example_window example_config {})
                    ! 1) = filter K qs"
    using t l by (elim conjE allE [of _ 1] impE)
  have "\<exists>K.
         (\<forall>q. outside_scope posix_host (inferWorktreeRoot example_window) q \<longrightarrow> K q)
         \<and> parts (fst (finalizeEditedFilesForNextStep posix_host 7 example_window
                          example_config {}) ! 1)
             = filter K (parts (example_window ! 1))
               @ (if findLastAssistant example_window = Some 1
                  then synthetic_reads posix_host 7 (inferWorktreeRoot example_window)
                   (finalize_gather posix_host example_window example_config {})
                   (editedFiles (finalize_gather posix_host example_window example_config {}))
                  else [])"
    using t l by (elim conjE allE [of _ 1] impE)
  then have f: "\<exists>K.
         (\<forall>q. outside_scope posix_host (inferWorktreeRoot example_window) q \<longrightarrow> K q)
         \<and> parts (fst (finalizeEditedFilesForNextStep posix_host 7 example_window
                          example_config {}) ! 1)
             = filter K (parts (example_window ! 1))
               @ synthetic_reads posix_host 7 (inferWorktreeRoot example_window)
                   (finalize_gather posix_host example_window example_config {})
                   (editedFiles (finalize_gather posix_host example_window example_config {}))"
    unfolding la by simp
  have m1: "map (\<lambda>m. filter (outside_scope posix_host (inferWorktreeRoot example_window)) (parts m))
       (fst (cleanupMessagesForContextJar posix_host example_window example_config {}))
     = [[text_part ''hi''], [pending_read ''c0'' ''/p/a.ts'']]"
    using t a by simp
  have m2: "map (\<lambda>m. filter (outside_scope posix_host (inferWorktreeRoot example_window)) (parts m))
       (fst (finalizeEditedFilesForNextStep posix_host 7 example_window example_config {}))
     = [[text_part ''hi''], [pending_read ''c0'' ''/p/a.ts'']]"
    using t a by simp
  show ?thesis using l m1 m2 c f n1 n2 by (intro conjI)
qed


subsection \<open>C4: protected files\<close>

text \<open>
  C4. Whatever the operations on a protected file and whatever the invalidation set,
  every part whose path resolves to a protected file is still in its message after a
  pass of either engine, unchanged and in the same order.
\<close>

theorem protected_parts_untouched:
  "(\<forall>i < length ms.
      subseq (filter (protected_part h (inferWorktreeRoot ms) cfg) (parts (ms ! i)))
        (parts (fst (cleanupMessagesForContextJar h ms cfg inval) ! i)))
   \<and> (\<forall>i < length ms.
      subseq (filter (protected_part h (inferWorktreeRoot ms) cfg) (parts (ms ! i)))
        (parts (fst (finalizeEditedFilesForNextStep h now ms cfg inval) ! i)))"
  by (simp add: cleanup_frame_protected_nth finalize_frame_protected_nth)

theorem protected_parts_untouched_witness:
  "filter (protected_part posix_host (inferWorktreeRoot example_window) example_config)
     (parts (example_window ! 1)) = [read_part ''c2'' ''/p/notes.md'' ''n'']
   \<and> subseq [read_part ''c2'' ''/p/notes.md'' ''n'']
       (parts (fst (cleanupMessagesForContextJar posix_host example_window example_config
                      {''/p/notes.md''}) ! 1))
   \<and> subseq [read_part ''c2'' ''/p/notes.md'' ''n'']
       (parts (fst (finalizeEditedFilesForNextStep posix_host 7 example_window example_config
                      {''/p/notes.md''}) ! 1))"
proof -
  have l: "(1::nat) < length example_window" by code_simp
  have f: "filter (protected_part posix_host (inferWorktreeRoot example_window) example_config)
             (parts (example_window ! 1)) = [read_part ''c2'' ''/p/notes.md'' ''n'']"
    by code_simp
  show ?thesis
    using protected_parts_untouched
      [of example_window posix_host example_config "{''/p/notes.md''}" 7] l f
    by auto
qed

subsection \<open>C2: finalization of a window with no assistant message\<close>

text \<open>
  C2, as stated, fails: with no assistant message in the window the finalization still
  removes the completed file-operation parts of an invalidated file. Here the read of
  \<open>/p/b.ts\<close>, a file of the invalidation set, is removed from a user message.
\<close>

theorem finalize_without_assistant_counterexample:
  "''assistant'' \<notin> set (map role user_only_window)
   \<and> map parts (fst (finalizeEditedFilesForNextStep posix_host 7 user_only_window example_config
                       {''/p/b.ts''}))
       \<noteq> map parts user_only_window"
  by code_simp


text \<open>
  C2, amended. On a window with no assistant message the finalization attaches no
  synthetic read and rewrites nothing: every message keeps a subsequence of its parts.
  When the window has no edited file, the pass removes exactly the completed
  file-operation parts of unprotected invalidated files, and when there are none of
  those either it leaves the window as it is.
\<close>

theorem finalize_without_assistant:
  assumes "''assistant'' \<notin> set (map role ms)"
  shows "(\<forall>i < length ms.
            subseq (parts (fst (finalizeEditedFilesForNextStep h now ms cfg inval) ! i))
              (parts (ms ! i)))
         \<and> (\<not> list_ex (edit_snapshot_part h (inferWorktreeRoot ms) cfg inval) (all_parts ms)
              \<longrightarrow> map parts (fst (finalizeEditedFilesForNextStep h now ms cfg inval))
                    = map (\<lambda>m. filter (\<lambda>p. \<not> invalidated_op h (inferWorktreeRoot ms) cfg inval p)
                                   (parts m)) ms)
         \<and> (\<not> list_ex (edit_snapshot_part h (inferWorktreeRoot ms) cfg inval) (all_parts ms)
              \<and> \<not> list_ex (invalidated_op h (inferWorktreeRoot ms) cfg inval) (all_parts ms)
              \<longrightarrow> fst (finalizeEditedFilesForNextStep h now ms cfg inval) = ms)"
proof (intro conjI allI impI)
  have none: "findLastAssistant ms = None"
    unfolding findLastAssistant_None using assms by (metis image_eqI list.set_map)
  fix i assume "i < length ms"
  then show "subseq (parts (fst (finalizeEditedFilesForNextStep h now ms cfg inval) ! i))
               (parts (ms ! i))"
    by (rule finalize_no_assistant_nth [OF none])
next
  assume "\<not> list_ex (edit_snapshot_part h (inferWorktreeRoot ms) cfg inval) (all_parts ms)"
  then have ne: "editedFiles (finalize_gather h ms cfg inval) = []"
    by (simp add: finalize_no_edits)
  show "map parts (fst (finalizeEditedFilesForNextStep h now ms cfg inval))
          = map (\<lambda>m. filter (\<lambda>p. \<not> invalidated_op h (inferWorktreeRoot ms) cfg inval p) (parts m)) ms"
    by (rule nth_equalityI) (simp_all add: finalize_no_edits_nth [OF ne])
next
  assume a: "\<not> list_ex (edit_snapshot_part h (inferWorktreeRoot ms) cfg inval) (all_parts ms)
             \<and> \<not> list_ex (invalidated_op h (inferWorktreeRoot ms) cfg inval) (all_parts ms)"
  then have ne: "editedFiles (finalize_gather h ms cfg inval) = []"
    by (simp add: finalize_no_edits)
  show "fst (finalizeEditedFilesForNextStep h now ms cfg inval) = ms"
  proof (rule messages_eqI)
    fix i assume i: "i < length ms"
    have "\<forall>p \<in> set (parts (ms ! i)). \<not> invalidated_op h (inferWorktreeRoot ms) cfg inval p"
      using a in_all_parts_nth [OF i] by (auto simp: list_ex_iff)
    then show "parts (fst (finalizeEditedFilesForNextStep h now ms cfg inval) ! i) = parts (ms ! i)"
      by (simp add: finalize_no_edits_nth [OF ne i] filter_id_conv)
  qed (simp_all add: finalize_nth)
qed

theorem finalize_without_assistant_witness:
  "''assistant'' \<notin> set (map role user_only_window)
   \<and> \<not> list_ex (edit_snapshot_part posix_host (inferWorktreeRoot user_only_window) example_config
                  {''/p/b.ts''}) (all_parts user_only_window)
   \<and> map parts (fst (finalizeEditedFilesForNextStep posix_host 7 user_only_window example_config
                       {''/p/b.ts''}))
       = [[text_part ''hi'', read_part ''c1'' ''/p/a.ts'' ''old'']]
   \<and> \<not> list_ex (invalidated_op posix_host (inferWorktreeRoot user_only_window) example_config {})
         (all_parts user_only_window)
   \<and> fst (finalizeEditedFilesForNextStep posix_host 7 user_only_window example_config {})
       = user_only_window"
proof -
  have a: "''assistant'' \<notin> set (map role user_only_window)" by code_simp
  have e1: "\<not> list_ex (edit_snapshot_part posix_host (inferWorktreeRoot user_only_window)
                          example_config {''/p/b.ts''}) (all_parts user_only_window)"
    by code_simp
  have e2: "\<not> list_ex (edit_snapshot_part posix_host (inferWorktreeRoot user_only_window)
                          example_config {}) (all_parts user_only_window)"
    by code_simp
  have i2: "\<not> list_ex (invalidated_op posix_host (inferWorktreeRoot user_only_window)
                          example_config {}) (all_parts user_only_window)"
    by code_simp
  have f: "map (\<lambda>m. filter (\<lambda>p. \<not> invalidated_op posix_host (inferWorktreeRoot user_only_window)
                                   example_config {''/p/b.ts''} p) (parts m)) user_only_window
             = [[text_part ''hi'', read_part ''c1'' ''/p/a.ts'' ''old'']]"
    by code_simp
  show ?thesis
    using finalize_without_assistant [OF a, of posix_host 7 example_config "{''/p/b.ts''}"]
      finalize_without_assistant [OF a, of posix_host 7 example_config "{}"]
      a e1 e2 i2 f
    by simp
qed

subsection \<open>C3: invalidated files\<close>

text \<open>
  C3 holds on every window in which each resolved path resolves to itself: then no
  completed file-operation part that resolves to an unprotected file of the invalidation
  set is left by either engine.
\<close>

lemma invalidated_parts_wiped_if_stable:
  assumes "f \<in> inval"
    and "\<not> isFileProtected f (protectedExtensions cfg) (protectedPatterns cfg)"
    and "list_all (resolves_to_itself h (inferWorktreeRoot ms)) (all_parts ms)"
  shows "\<not> list_ex (\<lambda>p. file_op_of h (inferWorktreeRoot ms) p f)
             (all_parts (fst (cleanupMessagesForContextJar h ms cfg inval)))
         \<and> \<not> list_ex (\<lambda>p. file_op_of h (inferWorktreeRoot ms) p f)
             (all_parts (fst (finalizeEditedFilesForNextStep h now ms cfg inval)))"
  using cleanup_wipes_invalidated [OF assms] finalize_wipes_invalidated [OF assms]
  by (auto simp: list_ex_iff)


text \<open>
  C3 at a failing input. The path \<open>/p/b\<close> followed by two quote characters resolves to
  \<open>/p/b\<close> followed by one quote; the consolidation keeps the read of that file and writes
  the resolved path into its input, and the finalization builds its synthetic read with
  that path. Resolved again, the path is \<open>/p/b\<close>, a file of the invalidation set: after
  the pass the window holds a completed read that resolves to an invalidated file.
\<close>

theorem invalidated_path_reappears:
  "''/p/b'' \<in> {''/p/b''}
   \<and> \<not> isFileProtected ''/p/b'' (protectedExtensions example_config)
         (protectedPatterns example_config)
   \<and> list_ex (\<lambda>p. file_op_of posix_host (inferWorktreeRoot quoted_read_window) p ''/p/b'')
         (all_parts (fst (cleanupMessagesForContextJar posix_host quoted_read_window
                            example_config {''/p/b''})))
   \<and> list_ex (\<lambda>p. file_op_of posix_host (inferWorktreeRoot quoted_edit_window) p ''/p/b'')
         (all_parts (fst (finalizeEditedFilesForNextStep posix_host 7 quoted_edit_window
                            example_config {''/p/b''})))"
  by code_simp


subsection \<open>C5: no fabrication\<close>

text \<open>
  For a file that is not invalidated and has no completed read in the window, the
  consolidation keeps every part that resolves to it, unchanged and in order; no message
  gains a part; and every part of the result that was not in the message before is a
  completed read of another file, with a non-empty output, rewritten in place.
\<close>

lemma edit_only_file_parts_kept:
  assumes "f \<notin> inval"
    and "\<not> list_ex (\<lambda>p. file_op_of h (inferWorktreeRoot ms) p f \<and> tool p = ''read'')
             (all_parts ms)"
  shows "\<forall>i < length ms.
           subseq (filter (\<lambda>p. extractPrimaryFilePath h p (inferWorktreeRoot ms) = Some f)
                     (parts (ms ! i)))
             (parts (fst (cleanupMessagesForContextJar h ms cfg inval) ! i))
           \<and> length (parts (fst (cleanupMessagesForContextJar h ms cfg inval) ! i))
               \<le> length (parts (ms ! i))
           \<and> (\<forall>p' \<in> set (parts (fst (cleanupMessagesForContextJar h ms cfg inval) ! i)).
                 p' \<in> set (parts (ms ! i))
                 \<or> (\<exists>q \<in> set (parts (ms ! i)). \<exists>g out.
                       g \<noteq> f \<and> file_op_of h (inferWorktreeRoot ms) q g \<and> tool q = ''read''
                       \<and> output_str (state q) \<noteq> [] \<and> p' = rewrite_keeper q out g))"
proof (intro allI impI conjI ballI)
  fix i assume i: "i < length ms"
  show "subseq (filter (\<lambda>p. extractPrimaryFilePath h p (inferWorktreeRoot ms) = Some f)
                     (parts (ms ! i)))
             (parts (fst (cleanupMessagesForContextJar h ms cfg inval) ! i))"
    by (rule cleanup_keeps_unread_file [OF assms i])
  show "length (parts (fst (cleanupMessagesForContextJar h ms cfg inval) ! i))
               \<le> length (parts (ms ! i))"
    by (rule cleanup_parts_shrink [OF i])
  fix p' assume p': "p' \<in> set (parts (fst (cleanupMessagesForContextJar h ms cfg inval) ! i))"
  from cleanup_result_part_nth [OF i p']
  show "p' \<in> set (parts (ms ! i))
        \<or> (\<exists>q \<in> set (parts (ms ! i)). \<exists>g out.
              g \<noteq> f \<and> file_op_of h (inferWorktreeRoot ms) q g \<and> tool q = ''read''
              \<and> output_str (state q) \<noteq> [] \<and> p' = rewrite_keeper q out g)"
  proof (elim disjE exE conjE)
    assume "p' \<in> set (parts (ms ! i))"
    then show ?thesis by simp
  next
    fix j g
    assume j: "j < length (parts (ms ! i))"
      and lr: "live_read h (inferWorktreeRoot ms) (protectedExtensions cfg) (protectedPatterns cfg)
                 inval (parts (ms ! i) ! j) g"
      and eq: "p' = rewrite_keeper (parts (ms ! i) ! j)
                      (normalizedOutput (cleanup_pass1 h ms cfg inval) g (parts (ms ! i) ! j)) g"
    let ?q = "parts (ms ! i) ! j"
    have q: "?q \<in> set (parts (ms ! i))" using j by simp
    have op: "file_op_of h (inferWorktreeRoot ms) ?q g" "tool ?q = ''read''"
      "output_str (state ?q) \<noteq> []"
      using lr by (simp_all add: live_read_def tracked_def)
    have "?q \<in> set (all_parts ms)" using in_all_parts_nth [OF i q] .
    then have "g \<noteq> f" using assms(2) op by (auto simp: list_ex_iff)
    with q op eq show ?thesis by blast
  qed
qed

text \<open>
  When every resolved path of the window resolves to itself, the parts that resolve to
  such a file are, in every message, the same list before and after the consolidation:
  none is removed, none is changed and none is added.
\<close>

lemma edit_only_file_untouched_if_stable:
  assumes f: "f \<notin> inval"
    and noread: "\<not> list_ex (\<lambda>p. file_op_of h (inferWorktreeRoot ms) p f \<and> tool p = ''read'')
                     (all_parts ms)"
    and stable: "list_all (resolves_to_itself h (inferWorktreeRoot ms)) (all_parts ms)"
    and i: "i < length ms"
  shows "filter (\<lambda>p. extractPrimaryFilePath h p (inferWorktreeRoot ms) = Some f)
           (parts (fst (cleanupMessagesForContextJar h ms cfg inval) ! i))
         = filter (\<lambda>p. extractPrimaryFilePath h p (inferWorktreeRoot ms) = Some f) (parts (ms ! i))"
proof (cases "filesWithHistory (cleanup_pass1 h ms cfg inval) = []")
  case True
  then show ?thesis using i by (simp add: cleanup_nth(3))
next
  case False
  let ?root = "inferWorktreeRoot ms"
  let ?s1 = "cleanup_pass1 h ms cfg inval"
  let ?s2 = "cleanup_pass2 ms inval ?s1"
  let ?K = "pass3_keeps h ?root (protectedExtensions cfg) (protectedPatterns cfg) inval ?s1 ?s2"
  let ?P = "\<lambda>p. extractPrimaryFilePath h p ?root = Some f"
  have nolive: "\<And>pos. valid_pos ms pos
                  \<Longrightarrow> \<not> live_read h ?root (protectedExtensions cfg) (protectedPatterns cfg) inval
                         (part_at ms pos) f"
  proof
    fix pos assume v: "valid_pos ms pos"
      and "live_read h ?root (protectedExtensions cfg) (protectedPatterns cfg) inval (part_at ms pos) f"
    then have "file_op_of h ?root (part_at ms pos) f \<and> tool (part_at ms pos) = ''read''"
      by (simp add: live_read_def tracked_def)
    moreover have "part_at ms pos \<in> set (all_parts ms)"
      unfolding in_all_parts_pos using v by blast
    ultimately show False using noread by (auto simp: list_ex_iff)
  qed
  have nokeeper: "lastReadByFile ?s1 f = None"
  proof (rule ccontr)
    assume "lastReadByFile ?s1 f \<noteq> None"
    then obtain pos where "lastReadByFile ?s1 f = Some pos" by auto
    from cleanup_lastRead_Some [OF this] nolive show False by blast
  qed
  have "filter ?P (filter ?K (parts (window ?s2 ! i))) = filter ?P (parts (ms ! i))"
  proof (rule filter_frame_eq)
    show "length (parts (window ?s2 ! i)) = length (parts (ms ! i))"
      by (simp add: cleanup_pass2_shape)
  next
    fix j assume j: "j < length (parts (ms ! i))"
      and e: "extractPrimaryFilePath h (parts (ms ! i) ! j) ?root = Some f"
    have v: "valid_pos ms (i, j)" using i j by (simp add: valid_pos_def)
    have "part_at (window ?s2) (i, j) = part_at ms (i, j)"
      using cleanup_w2_cases [of ms inval h cfg "(i, j)"] e nolive [OF v]
      by (auto simp: part_at_def live_read_def tracked_def file_op_of_def)
    then have eq: "parts (window ?s2 ! i) ! j = parts (ms ! i) ! j" by (simp add: part_at_def)
    have "?K (parts (ms ! i) ! j)"
      using e f nokeeper by (simp add: pass3_keeps_def cleanup_filesToConsolidate)
    with eq show "parts (window ?s2 ! i) ! j = parts (ms ! i) ! j \<and> ?K (parts (window ?s2 ! i) ! j)"
      by simp
  next
    fix j assume j: "j < length (parts (ms ! i))"
      and ne: "extractPrimaryFilePath h (parts (ms ! i) ! j) ?root \<noteq> Some f"
    have v: "valid_pos ms (i, j)" using i j by (simp add: valid_pos_def)
    from cleanup_w2_cases [of ms inval h cfg "(i, j)"]
    show "extractPrimaryFilePath h (parts (window ?s2 ! i) ! j) ?root \<noteq> Some f"
    proof (elim disjE exE conjE)
      assume "part_at (window ?s2) (i, j) = part_at ms (i, j)"
      then show ?thesis using ne by (simp add: part_at_def)
    next
      fix g
      assume lr: "live_read h ?root (protectedExtensions cfg) (protectedPatterns cfg) inval
                    (part_at ms (i, j)) g"
        and kp: "part_at (window ?s2) (i, j)
                   = rewrite_keeper (part_at ms (i, j))
                       (normalizedOutput ?s1 g (part_at ms (i, j))) g"
      have op: "file_op_of h ?root (part_at ms (i, j)) g"
        using lr by (simp add: live_read_def tracked_def)
      then have eg: "extractPrimaryFilePath h (part_at ms (i, j)) ?root = Some g"
        and comp: "isCompletedToolPart (part_at ms (i, j))"
        by (simp_all add: file_op_of_def)
      have gf: "g \<noteq> f" using eg ne by (auto simp: part_at_def)
      have "normalizeFilePath h (Some g) ?root = Some g"
        by (rule stable_original [OF stable v eg])
      then have "extractPrimaryFilePath h (part_at (window ?s2) (i, j)) ?root = Some g"
        unfolding kp using comp by (simp add: extract_rewrite_keeper)
      then show ?thesis using gf by (simp add: part_at_def)
    qed
  qed
  then show ?thesis using False i by (simp add: cleanup_nth(3))
qed

text \<open>
  C5. The file \<open>/p/e.ts\<close> is not protected and not invalidated, and the window holds one
  edit of it and no read of it. The window also holds a read of the path \<open>/p/e.ts\<close>
  followed by two single quote characters, which resolves to another key; the
  consolidation keeps that read and writes its key into the input of the part, and the
  rewritten part resolves to \<open>/p/e.ts\<close>. After the consolidation two completed file
  operations resolve to the file, the edit and a read, where there was one.
\<close>

theorem edit_only_file_gains_read:
  "''/p/e.ts'' \<notin> ({} :: string set)
   \<and> \<not> isFileProtected ''/p/e.ts'' (protectedExtensions example_config)
         (protectedPatterns example_config)
   \<and> \<not> list_ex (\<lambda>p. file_op_of posix_host (inferWorktreeRoot quoted_neighbour_window) p ''/p/e.ts''
                      \<and> tool p = ''read'') (all_parts quoted_neighbour_window)
   \<and> map tool (filter (\<lambda>p. file_op_of posix_host (inferWorktreeRoot quoted_neighbour_window) p
                              ''/p/e.ts'') (all_parts quoted_neighbour_window)) = [''edit'']
   \<and> map tool (filter (\<lambda>p. file_op_of posix_host (inferWorktreeRoot quoted_neighbour_window) p
                              ''/p/e.ts'')
                  (all_parts (fst (cleanupMessagesForContextJar posix_host quoted_neighbour_window
                                     example_config {})))) = [''edit'', ''read'']"
  by code_simp


subsection \<open>C1: one read per file\<close>

text \<open>
  A completed read with an empty output is never kept: pass 1 records a read as the last read
  of its file only when its output is non-empty, and a file with no recorded read is not
  consolidated. Two reads of one file with empty outputs both stay.
\<close>

theorem empty_reads_both_remain_counterexample:
  "''/p/a.ts'' \<notin> ({} :: string set)
   \<and> \<not> isFileProtected ''/p/a.ts'' (protectedExtensions example_config)
         (protectedPatterns example_config)
   \<and> list_ex (\<lambda>p. file_op_of posix_host (inferWorktreeRoot empty_reads_window) p ''/p/a.ts''
                   \<and> tool p = ''read'') (all_parts empty_reads_window)
   \<and> filter (\<lambda>p. file_op_of posix_host (inferWorktreeRoot empty_reads_window) p ''/p/a.ts'')
       (all_parts (fst (cleanupMessagesForContextJar posix_host empty_reads_window
                          example_config {})))
       = [read_part ''c1'' ''/p/a.ts'' [], read_part ''c2'' ''/p/a.ts'' []]"
  by code_simp

text \<open>
  C1. For a file that is not protected and not invalidated and has a completed read with a
  non-empty output in the window, when the completed reads of the window carry pairwise
  distinct, non-empty call identifiers and every resolved path of the window resolves to
  itself, the completed file operations on the file that the consolidation leaves in the
  window are exactly one part: a read with a non-empty output of the original window,
  rewritten in place.
\<close>

theorem one_read_per_file:
  assumes "f \<notin> inval"
    and "\<not> isFileProtected f (protectedExtensions cfg) (protectedPatterns cfg)"
    and "list_ex (\<lambda>p. file_op_of h (inferWorktreeRoot ms) p f \<and> tool p = ''read''
                       \<and> output_str (state p) \<noteq> []) (all_parts ms)"
    and "distinct (map callID (completed_reads ms))"
    and "None \<notin> set (map callID (completed_reads ms))"
    and "Some [] \<notin> set (map callID (completed_reads ms))"
    and "list_all (resolves_to_itself h (inferWorktreeRoot ms)) (all_parts ms)"
  shows "\<exists>q out. q \<in> set (all_parts ms) \<and> file_op_of h (inferWorktreeRoot ms) q f
           \<and> tool q = ''read'' \<and> output_str (state q) \<noteq> []
           \<and> filter (\<lambda>p. file_op_of h (inferWorktreeRoot ms) p f)
                (all_parts (fst (cleanupMessagesForContextJar h ms cfg inval)))
               = [rewrite_keeper q out f]"
proof -
  let ?root = "inferWorktreeRoot ms"
  let ?s1 = "cleanup_pass1 h ms cfg inval"
  from assms(3) obtain p where p: "p \<in> set (all_parts ms)" "file_op_of h ?root p f"
    "tool p = ''read''" "output_str (state p) \<noteq> []"
    unfolding list_ex_iff by blast
  from p(1) obtain pos where pos: "valid_pos ms pos" "p = part_at ms pos"
    unfolding in_all_parts_pos by blast
  have "live_read h ?root (protectedExtensions cfg) (protectedPatterns cfg) inval
          (part_at ms pos) f"
    using p(2,3,4) pos(2) assms(1,2) by (simp add: live_read_def tracked_def)
  from cleanup_lastRead_exists [OF pos(1) this]
  obtain pk where lr: "lastReadByFile ?s1 f = Some pk" by blast
  note lk = cleanup_lastRead_Some [OF lr]
  let ?q = "part_at ms pk"
  have q1: "?q \<in> set (all_parts ms)" unfolding in_all_parts_pos using lk by blast
  have q2: "file_op_of h ?root ?q f" "tool ?q = ''read''" "output_str (state ?q) \<noteq> []"
    using lk by (simp_all add: live_read_def tracked_def)
  show ?thesis
    using q1 q2 cleanup_file_ops_single [OF lr assms(4,5,6,7)] by blast
qed

theorem one_read_per_file_witness:
  "''/p/a.ts'' \<notin> ({} :: string set)
   \<and> list_ex (\<lambda>p. file_op_of posix_host (inferWorktreeRoot example_window) p ''/p/a.ts''
                   \<and> tool p = ''read'' \<and> output_str (state p) \<noteq> [])
       (all_parts example_window)
   \<and> distinct (map callID (completed_reads example_window))
   \<and> (\<exists>q out. q \<in> set (all_parts example_window)
         \<and> file_op_of posix_host (inferWorktreeRoot example_window) q ''/p/a.ts''
         \<and> tool q = ''read'' \<and> output_str (state q) \<noteq> []
         \<and> filter (\<lambda>p. file_op_of posix_host (inferWorktreeRoot example_window) p ''/p/a.ts'')
              (all_parts (fst (cleanupMessagesForContextJar posix_host example_window
                                 example_config {})))
             = [rewrite_keeper q out ''/p/a.ts''])"
proof -
  have a: "''/p/a.ts'' \<notin> ({} :: string set)" by simp
  have b: "\<not> isFileProtected ''/p/a.ts'' (protectedExtensions example_config)
              (protectedPatterns example_config)" by code_simp
  have c: "list_ex (\<lambda>p. file_op_of posix_host (inferWorktreeRoot example_window) p ''/p/a.ts''
                   \<and> tool p = ''read'' \<and> output_str (state p) \<noteq> [])
            (all_parts example_window)" by code_simp
  have d: "distinct (map callID (completed_reads example_window))" by code_simp
  have e: "None \<notin> set (map callID (completed_reads example_window))" by code_simp
  have f: "Some [] \<notin> set (map callID (completed_reads example_window))" by code_simp
  have g: "list_all (resolves_to_itself posix_host (inferWorktreeRoot example_window))
             (all_parts example_window)" by code_simp
  show ?thesis
    using one_read_per_file [OF a b c d e f g] a c d by blast
qed


subsection \<open>C8: running the finalization twice\<close>





subsection \<open>C6: a read, an edit and a second read of one file\<close>




end
